theory Spec2Isabelle
  imports Complex_Main
begin

chapter \<open>The embedding\<close>

section \<open>Edit-distance scorer\<close>

text \<open>
  A JavaScript string is a sequence of code units; \<open>a.length\<close> counts them and \<open>a[i]\<close>
  reads one. Strings are modelled as lists, the distance function is polymorphic in the
  code-unit type.

  \<open>levenshteinDistance\<close> allocates a table of \<open>b.length + 1\<close> rows and \<open>a.length + 1\<close>
  columns filled with \<open>null\<close>, so a cell is a \<open>nat option\<close> with \<open>None\<close> for \<open>null\<close>.
  Arithmetic on a cell converts it with JavaScript's ToNumber, under which \<open>null\<close> is 0.
\<close>

type_synonym matrix = "nat option list list"

definition toNumber :: "nat option \<Rightarrow> nat" where
  "toNumber c = (case c of None \<Rightarrow> 0 | Some n \<Rightarrow> n)"

definition newMatrix :: "nat \<Rightarrow> nat \<Rightarrow> matrix" where
  "newMatrix rows cols = replicate rows (replicate cols None)"

text \<open>\<open>matrix[j][i] = v\<close> and the read \<open>matrix[j][i]\<close>. The loop bounds keep every index
  of the function inside the allocated table (\<open>dims\<close> below is the shape the loops keep,
  lemma \<open>levenshteinMatrix_filled\<close>).\<close>

definition setCell :: "matrix \<Rightarrow> nat \<Rightarrow> nat \<Rightarrow> nat \<Rightarrow> matrix" where
  "setCell m j i v = m[j := (m ! j)[i := Some v]]"

definition getCell :: "matrix \<Rightarrow> nat \<Rightarrow> nat \<Rightarrow> nat option" where
  "getCell m j i = m ! j ! i"

text \<open>\<open>for (let i = 0; i <= a.length; i += 1) { matrix[0][i] = i; }\<close>\<close>

function fillFirstRow :: "nat \<Rightarrow> nat \<Rightarrow> matrix \<Rightarrow> matrix" where
  "fillFirstRow la i m = (if i \<le> la then fillFirstRow la (i + 1) (setCell m 0 i i) else m)"
  by pat_completeness auto
termination
  by (relation "measure (\<lambda>(la, i, m). Suc la - i)") auto

declare fillFirstRow.simps [simp del]

text \<open>\<open>for (let j = 0; j <= b.length; j += 1) { matrix[j][0] = j; }\<close>\<close>

function fillFirstCol :: "nat \<Rightarrow> nat \<Rightarrow> matrix \<Rightarrow> matrix" where
  "fillFirstCol lb j m = (if j \<le> lb then fillFirstCol lb (j + 1) (setCell m j 0 j) else m)"
  by pat_completeness auto
termination
  by (relation "measure (\<lambda>(lb, j, m). Suc lb - j)") auto

declare fillFirstCol.simps [simp del]

text \<open>The body of the inner loop: the value stored in \<open>matrix[j][i]\<close>.\<close>

definition cellValue :: "'a list \<Rightarrow> 'a list \<Rightarrow> matrix \<Rightarrow> nat \<Rightarrow> nat \<Rightarrow> nat" where
  "cellValue a b m j i =
     (let indicator = (if a ! (i - 1) = b ! (j - 1) then 0 else 1)
      in min (min (toNumber (getCell m j (i - 1)) + 1)
                  (toNumber (getCell m (j - 1) i) + 1))
             (toNumber (getCell m (j - 1) (i - 1)) + indicator))"

text \<open>\<open>for (let i = 1; i <= a.length; i += 1) { ... }\<close> at a fixed row \<open>j\<close>.\<close>

function innerLoop :: "'a list \<Rightarrow> 'a list \<Rightarrow> nat \<Rightarrow> nat \<Rightarrow> matrix \<Rightarrow> matrix" where
  "innerLoop a b j i m =
     (if i \<le> length a then innerLoop a b j (i + 1) (setCell m j i (cellValue a b m j i)) else m)"
  by pat_completeness auto
termination
  by (relation "measure (\<lambda>(a, b, j, i, m). Suc (length a) - i)") auto

declare innerLoop.simps [simp del]

text \<open>\<open>for (let j = 1; j <= b.length; j += 1) { ... }\<close>\<close>

function outerLoop :: "'a list \<Rightarrow> 'a list \<Rightarrow> nat \<Rightarrow> matrix \<Rightarrow> matrix" where
  "outerLoop a b j m =
     (if j \<le> length b then outerLoop a b (j + 1) (innerLoop a b j 1 m) else m)"
  by pat_completeness auto
termination
  by (relation "measure (\<lambda>(a, b, j, m). Suc (length b) - j)") auto

declare outerLoop.simps [simp del]

definition levenshteinMatrix :: "'a list \<Rightarrow> 'a list \<Rightarrow> matrix" where
  "levenshteinMatrix a b =
     outerLoop a b 1
       (fillFirstCol (length b) 0
         (fillFirstRow (length a) 0
           (newMatrix (length b + 1) (length a + 1))))"

text \<open>The function returns the cell \<open>matrix[b.length][a.length]\<close> as it is.\<close>

definition levenshteinDistance :: "'a list \<Rightarrow> 'a list \<Rightarrow> nat option" where
  "levenshteinDistance a b = getCell (levenshteinMatrix a b) (length b) (length a)"

subsection \<open>What the scorer is specified to compute\<close>

text \<open>
  The specification's words: the minimum number of single-character insertions, deletions
  and substitutions that transform \<open>a\<close> into \<open>b\<close>. \<open>edit1 a a'\<close> is one such edit at any
  position, \<open>edits n a b\<close> a chain of \<open>n\<close> of them from \<open>a\<close> to \<open>b\<close>.
\<close>

definition edit1 :: "'a list \<Rightarrow> 'a list \<Rightarrow> bool" where
  "edit1 a a' \<longleftrightarrow>
     (\<exists>xs ys c. a = xs @ ys \<and> a' = xs @ c # ys)
   \<or> (\<exists>xs ys c. a = xs @ c # ys \<and> a' = xs @ ys)
   \<or> (\<exists>xs ys c d. a = xs @ c # ys \<and> a' = xs @ d # ys)"

inductive edits :: "nat \<Rightarrow> 'a list \<Rightarrow> 'a list \<Rightarrow> bool" where
  edits_0: "edits 0 a a"
| edits_Suc: "edit1 a a' \<Longrightarrow> edits n a' b \<Longrightarrow> edits (Suc n) a b"

text \<open>The textbook recurrence, on the heads of the two strings; the proofs go through it.\<close>

fun ed :: "'a list \<Rightarrow> 'a list \<Rightarrow> nat" where
  "ed [] ys = length ys"
| "ed xs [] = length xs"
| "ed (x # xs) (y # ys) =
     min (min (ed xs (y # ys) + 1) (ed (x # xs) ys + 1))
         (ed xs ys + (if x = y then 0 else 1))"

text \<open>The loop invariant of the table: its shape, and the cells written so far hold the
  distances between prefixes.\<close>

definition dims :: "nat \<Rightarrow> nat \<Rightarrow> matrix \<Rightarrow> bool" where
  "dims la lb m \<longleftrightarrow> length m = lb + 1 \<and> (\<forall>j \<le> lb. length (m ! j) = la + 1)"

definition prefixDist :: "'a list \<Rightarrow> 'a list \<Rightarrow> nat \<Rightarrow> nat \<Rightarrow> nat" where
  "prefixDist a b i j = ed (rev (take i a)) (rev (take j b))"

definition filled :: "'a list \<Rightarrow> 'a list \<Rightarrow> matrix \<Rightarrow> nat \<Rightarrow> nat \<Rightarrow> bool" where
  "filled a b m j i \<longleftrightarrow>
     dims (length a) (length b) m \<and>
     (\<forall>j' i'. j' \<le> length b \<and> i' \<le> length a \<and> (j' < j \<or> (j' = j \<and> i' < i) \<or> i' = 0)
        \<longrightarrow> getCell m j' i' = Some (prefixDist a b i' j'))"

section \<open>Match selector\<close>

text \<open>
  A game record as \<open>formatGameData\<close> builds it. \<open>findBestMatch\<close> reads only \<open>name\<close>; the
  other fields (description, rating, image, platforms, ...) are the extension part of the
  record, so the functions below are stated on \<open>'z game_scheme\<close>. A \<open>string\<close> is the list
  of the code units of a JavaScript string.
\<close>

record game =
  game_id :: int
  game_slug :: string
  name :: string

record 'g scoredResult =
  game :: 'g
  score :: "nat option"

text \<open>
  \<open>String.prototype.toLowerCase\<close> is a built-in of the language, not code of the
  repository: it is the parameter \<open>toLowerCase\<close> of the functions that call it, and the
  theorems hold for every such function. \<open>toLowerCaseAscii\<close> is what it does on ASCII
  strings, for evaluating examples.
\<close>

definition toLowerCaseAscii :: "string \<Rightarrow> string" where
  "toLowerCaseAscii s =
     map (\<lambda>c. let n = (of_char c :: nat) in if 65 \<le> n \<and> n \<le> 90 then char_of (n + 32) else c) s"

text \<open>
  \<open>results.map(game => ({game, score: ...})).sort((a, b) => a.score - b.score)\<close>:
  \<open>Array.prototype.sort\<close> is stable, and the comparator orders by the numeric value of
  \<open>score\<close>, so the sorted array is the stable insertion sort \<open>sort_key\<close> on that key.
\<close>

definition scoreResults ::
  "(string \<Rightarrow> string) \<Rightarrow> string \<Rightarrow> 'z game_scheme list \<Rightarrow> 'z game_scheme scoredResult list" where
  "scoreResults toLowerCase normalizedTarget results =
     sort_key (\<lambda>r. toNumber (score r))
       (map (\<lambda>g. \<lparr>game = g, score = levenshteinDistance normalizedTarget (toLowerCase (name g))\<rparr>)
            results)"

text \<open>
  \<open>results\<close> is an array (the guard \<open>!results\<close> is for a missing one). \<open>targetTitle.length / 2\<close>
  is a division of numbers, not of integers. \<open>scoredResults[0]\<close> is read only after the
  guard \<open>results.length === 0\<close>, where the array has an element (lemma
  \<open>scoreResults_nonempty\<close>).
\<close>

definition findBestMatch ::
  "(string \<Rightarrow> string) \<Rightarrow> string \<Rightarrow> 'z game_scheme list \<Rightarrow> 'z game_scheme option" where
  "findBestMatch toLowerCase targetTitle results =
     (if results = [] then None
      else
        let normalizedTarget = toLowerCase targetTitle in
        case find (\<lambda>g. toLowerCase (name g) = normalizedTarget) results of
          Some exactMatch \<Rightarrow> Some exactMatch
        | None \<Rightarrow>
            let scoredResults = scoreResults toLowerCase normalizedTarget results in
            if real (toNumber (score (hd scoredResults))) < real (length targetTitle) / 2
            then Some (game (hd scoredResults))
            else None)"

text \<open>The distance of a candidate to the normalized target, as a number.\<close>

definition candidateDistance :: "(string \<Rightarrow> string) \<Rightarrow> string \<Rightarrow> 'z game_scheme \<Rightarrow> nat" where
  "candidateDistance toLowerCase targetTitle g =
     toNumber (levenshteinDistance (toLowerCase targetTitle) (toLowerCase (name g)))"

text \<open>A game record with a given name, for the examples.\<close>

definition exampleGame :: "string \<Rightarrow> game" where
  "exampleGame n = \<lparr>game_id = 0, game_slug = [], name = n\<rparr>"

section \<open>Array slices\<close>

text \<open>
  \<open>Array.prototype.slice(start, end)\<close> on integer arguments: a negative index counts from
  the end of the array, both indices are clamped to the array, and the result is empty
  when the end does not lie after the start.
\<close>

definition js_slice :: "'a list \<Rightarrow> int \<Rightarrow> int \<Rightarrow> 'a list" where
  "js_slice xs start fin =
     (let len = int (length xs);
          k = (if start < 0 then max (len + start) 0 else min start len);
          final = (if fin < 0 then max (len + fin) 0 else min fin len);
          count = max (final - k) 0
      in take (nat count) (drop (nat k) xs))"

section \<open>Pagination of a curated genre\<close>

text \<open>
  \<open>displayCuratedGamesForGenre\<close> shows the entries \<open>pageGameObjects\<close> of the genre's list
  \<open>allGameObjects\<close>; \<open>totalPages\<close> is \<open>Math.ceil(allGameObjects.length / this.gamesPerPage)\<close>.
\<close>

definition gamesPerPage :: int where
  "gamesPerPage = 8"

definition totalPages :: "'a list \<Rightarrow> int" where
  "totalPages allGameObjects = \<lceil>real (length allGameObjects) / real_of_int gamesPerPage\<rceil>"

definition pageGameObjects :: "'a list \<Rightarrow> int \<Rightarrow> 'a list" where
  "pageGameObjects allGameObjects page =
     (let startIndex = (page - 1) * gamesPerPage;
          endIndex = startIndex + gamesPerPage
      in js_slice allGameObjects startIndex endIndex)"

section \<open>Search history\<close>

text \<open>
  \<open>SearchManager.addToHistory\<close> on the in-memory list \<open>this.searchHistory\<close>; \<open>now\<close> is the
  value of \<open>Date.now()\<close>. The guard \<open>!query\<close> holds for the empty string. Saving the list
  to local storage afterwards does not change it.
\<close>

record historyItem =
  query :: string
  timestamp :: int

definition maxHistoryItems :: nat where
  "maxHistoryItems = 50"

definition addToHistory :: "string \<Rightarrow> int \<Rightarrow> historyItem list \<Rightarrow> historyItem list" where
  "addToHistory q now searchHistory =
     (if q = [] then searchHistory
      else js_slice (\<lparr>query = q, timestamp = now\<rparr> # filter (\<lambda>item. query item \<noteq> q) searchHistory)
             0 (int maxHistoryItems))"

text \<open>A sequence of calls, each with its query and its clock value.\<close>

fun addToHistoryCalls :: "(string \<times> int) list \<Rightarrow> historyItem list \<Rightarrow> historyItem list" where
  "addToHistoryCalls [] searchHistory = searchHistory"
| "addToHistoryCalls ((q, now) # calls) searchHistory =
     addToHistoryCalls calls (addToHistory q now searchHistory)"

text \<open>What the calls keep: at most \<open>maxHistoryItems\<close> entries, no query twice.\<close>

definition historyInvariant :: "historyItem list \<Rightarrow> bool" where
  "historyInvariant h \<longleftrightarrow> length h \<le> maxHistoryItems \<and> distinct (map query h)"

section \<open>Resolution pipeline\<close>

text \<open>A curated entry \<open>{title, slug}\<close> of the bundled catalog.\<close>

record curatedEntry =
  title :: string
  slug :: string

text \<open>
  What \<open>fetchCuratedGameData\<close> returns: \<open>{status: 'found', data}\<close>, \<open>{status: 'not_found',
  data: null}\<close> or \<open>{status: 'aborted'}\<close>. The status decides whether there is a record, so
  the object is a tagged union; \<open>status\<close> and \<open>data\<close> read its two fields.
\<close>

datatype 'g resolution = Found 'g | NotFound | Aborted

fun status :: "'g resolution \<Rightarrow> string" where
  "status (Found d) = ''found''"
| "status NotFound = ''not_found''"
| "status Aborted = ''aborted''"

fun data :: "'g resolution \<Rightarrow> 'g option" where
  "data (Found d) = Some d"
| "data NotFound = None"
| "data Aborted = None"

text \<open>
  The metadata client (\<open>this.app.gameAPI\<close>) is the collaborator the pipeline calls. A call
  either resolves with a value or rejects (\<open>None\<close>: a failed request or a non-success
  status); \<open>searchGames\<close> takes the query, the page size and the platform facet. Every call
  the pipeline makes is appended to the log \<open>requests\<close>.
\<close>

datatype request = GetGameDetails string | SearchGames string nat string

record 'g gameAPI =
  getGameDetails :: "string \<Rightarrow> 'g option"
  searchGames :: "string \<Rightarrow> nat \<Rightarrow> string \<Rightarrow> 'g list option"

text \<open>
  The elements the curated grid can hold: the skeleton placeholder of
  \<open>createGameCardPlaceholderHTML(id)\<close>, the same placeholder after Stage 2 (class
  \<open>skeleton\<close> removed, content \<open>createGameCardSearchingHTML(title)\<close>), the card of
  \<open>createGameCardHTMLFromData\<close> (slug and display title) and the card of
  \<open>createGameCardNotFoundHTML\<close>. Only the first two carry \<open>data-placeholder-id\<close>.
\<close>

datatype element =
    SkeletonPlaceholder nat
  | SearchingPlaceholder nat string
  | GameCard string string
  | NotFoundCard string

fun dataPlaceholderId :: "element \<Rightarrow> nat option" where
  "dataPlaceholderId (SkeletonPlaceholder n) = Some n"
| "dataPlaceholderId (SearchingPlaceholder n t) = Some n"
| "dataPlaceholderId (GameCard s t) = None"
| "dataPlaceholderId (NotFoundCard t) = None"

text \<open>
  \<open>querySelector('[data-placeholder-id="n"]')\<close> finds the first such element in document
  order; the code changes it only if there is one.
\<close>

fun replacePlaceholder :: "nat \<Rightarrow> element \<Rightarrow> element list \<Rightarrow> element list" where
  "replacePlaceholder n new [] = []"
| "replacePlaceholder n new (e # es) =
     (if dataPlaceholderId e = Some n then new # es else e # replacePlaceholder n new es)"

record pipelineState =
  document :: "element list"
  requests :: "request list"

text \<open>
  \<open>fetchCuratedGameData\<close> suspends at its two \<open>await\<close>s, and other handlers run in between.
  What they can change and the function reads afterwards is an input: \<open>this.activeCuratedTab\<close>
  as it is when the function resumes after the slug lookup (\<open>tabAfterSlugLookup\<close>) and after
  the search (\<open>tabAfterSearch\<close>), and the document as it is when the function resumes after
  the slug lookup (the \<open>document\<close> of the state passed in). A rejected \<open>await\<close> continues in
  the \<open>catch\<close> block, which only logs. \<open>getGameDetails\<close> resolves with an object, so
  \<open>if (gameData)\<close> holds whenever it resolves.
\<close>

definition fetchCuratedGameData ::
  "'z game_scheme gameAPI \<Rightarrow> (string \<Rightarrow> string) \<Rightarrow> string \<Rightarrow> string \<Rightarrow>
   curatedEntry \<Rightarrow> string \<Rightarrow> nat \<Rightarrow> pipelineState \<Rightarrow> 'z game_scheme resolution \<times> pipelineState" where
  "fetchCuratedGameData api toLowerCase tabAfterSlugLookup tabAfterSearch
       gameObject currentGenre placeholderId s =
     (let s1 = s\<lparr>requests := requests s @ [GetGameDetails (slug gameObject)]\<rparr> in
      case getGameDetails api (slug gameObject) of
        Some gameData \<Rightarrow>
          if tabAfterSlugLookup \<noteq> currentGenre then (Aborted, s1) else (Found gameData, s1)
      | None \<Rightarrow>
          let s2 = s1\<lparr>document :=
                     replacePlaceholder placeholderId
                       (SearchingPlaceholder placeholderId (title gameObject)) (document s1)\<rparr>;
              s3 = s2\<lparr>requests := requests s2 @ [SearchGames (title gameObject) 5 ''17'']\<rparr>
          in case searchGames api (title gameObject) 5 ''17'' of
               Some games \<Rightarrow>
                 if tabAfterSearch \<noteq> currentGenre then (Aborted, s3)
                 else (case findBestMatch toLowerCase (title gameObject) games of
                         Some bestMatch \<Rightarrow> (Found bestMatch, s3)
                       | None \<Rightarrow> (NotFound, s3))
             | None \<Rightarrow> (NotFound, s3))"

text \<open>
  The continuation of \<open>displayCuratedGamesForGenre\<close> for one entry, after
  \<open>await this.fetchCuratedGameData(...)\<close>: \<open>activeCuratedTab\<close> and \<open>grid\<close> are the active tab and
  the content of the grid at that moment.
\<close>

definition renderCuratedResult ::
  "string \<Rightarrow> string \<Rightarrow> curatedEntry \<Rightarrow> nat \<Rightarrow> 'z game_scheme resolution \<Rightarrow>
   element list \<Rightarrow> element list" where
  "renderCuratedResult activeCuratedTab genre gameObject placeholderId result grid =
     (if activeCuratedTab \<noteq> genre then grid
      else replacePlaceholder placeholderId
             (case result of
                Found d \<Rightarrow> GameCard (game_slug d) (title gameObject)
              | _ \<Rightarrow> NotFoundCard (title gameObject))
             grid)"

text \<open>Metadata clients for the examples.\<close>

definition offlineAPI :: "game gameAPI" where
  "offlineAPI = \<lparr>getGameDetails = (\<lambda>s. None), searchGames = (\<lambda>q n p. None)\<rparr>"

definition searchOnlyAPI :: "game list \<Rightarrow> game gameAPI" where
  "searchOnlyAPI gs = \<lparr>getGameDetails = (\<lambda>s. None), searchGames = (\<lambda>q n p. Some gs)\<rparr>"

definition rezAPI :: "game gameAPI" where
  "rezAPI =
     \<lparr>getGameDetails = (\<lambda>s. if s = ''lumines'' then Some (exampleGame ''Lumines'') else None),
      searchGames = (\<lambda>q n p. if q = ''Rez'' then Some [exampleGame ''Rez HD'', exampleGame ''REZ'']
                               else Some [])\<rparr>"

section \<open>Curated section: tabs and pagination\<close>

text \<open>
  The bundled catalog \<open>curatedGames\<close> (\<open>services/CuratedGames.js\<close>) is a parameter: an object
  from genre name to \<open>{link, games}\<close>, its keys in insertion order.
\<close>

record category =
  link :: string
  games :: "curatedEntry list"

type_synonym catalog = "(string \<times> category) list"

definition curatedGenres :: "catalog \<Rightarrow> string list" where
  "curatedGenres curatedGames = map fst curatedGames"

text \<open>
  Which containers the page holds: \<open>gridPresent\<close> stands for \<open>curated-games-grid\<close> and
  \<open>curated-link-container\<close>, \<open>paginationPresent\<close> for \<open>curated-pagination\<close>.
\<close>

record containers =
  gridPresent :: bool
  paginationPresent :: bool

text \<open>
  The state the curated section keeps: the two fields of \<open>UIManager\<close>, the click handlers
  of the Previous and Next buttons as \<open>renderCuratedPagination\<close> last wired them (a handler
  \<open>(genre, page)\<close> calls \<open>displayCuratedGamesForGenre(genre, page)\<close>), and the calls of
  \<open>displayCuratedGamesForGenre\<close> suspended at \<open>await Promise.all(...)\<close>, each with the
  arguments \<open>(genre, page, totalPages)\<close> it will pass to \<open>renderCuratedPagination\<close>.
\<close>

record curatedUI =
  activeCuratedTab :: string
  currentPageByGenre :: "string \<rightharpoonup> int"
  previousHandler :: "(string \<times> int) option"
  nextHandler :: "(string \<times> int) option"
  pendingRenders :: "(string \<times> int \<times> int) list"

text \<open>\<open>displayCuratedGamesForGenre\<close> up to its \<open>await\<close>, as far as this state goes.\<close>

definition displayCuratedGamesForGenre ::
  "containers \<Rightarrow> catalog \<Rightarrow> string \<Rightarrow> int \<Rightarrow> curatedUI \<Rightarrow> curatedUI" where
  "displayCuratedGamesForGenre html curatedGames genre page ui =
     (let ui1 = ui\<lparr>currentPageByGenre := (currentPageByGenre ui)(genre \<mapsto> page)\<rparr> in
      if \<not> gridPresent html then ui1
      else if activeCuratedTab ui1 \<noteq> genre then ui1
      else case map_of curatedGames genre of
             None \<Rightarrow> ui1
           | Some categoryData \<Rightarrow>
               ui1\<lparr>pendingRenders :=
                      pendingRenders ui1 @ [(genre, page, totalPages (games categoryData))]\<rparr>)"

text \<open>\<open>renderCuratedPagination(genre, currentPage, totalPages)\<close>; \<open>numPages\<close> is its third
  argument.\<close>

definition renderCuratedPagination ::
  "containers \<Rightarrow> string \<Rightarrow> int \<Rightarrow> int \<Rightarrow> curatedUI \<Rightarrow> curatedUI" where
  "renderCuratedPagination html genre currentPage numPages ui =
     (if \<not> paginationPresent html then ui
      else if numPages \<le> 1 then ui\<lparr>previousHandler := None, nextHandler := None\<rparr>
      else ui\<lparr>previousHandler := (if currentPage > 1 then Some (genre, currentPage - 1) else None),
              nextHandler := (if currentPage < numPages then Some (genre, currentPage + 1) else None)\<rparr>)"

text \<open>
  The constructor sets \<open>activeCuratedTab = curatedGenres[0]\<close> and an empty
  \<open>currentPageByGenre\<close>; \<open>setupCuratedSection\<close> then displays the active tab with the default
  page 1. (The catalog has a genre: \<open>populated\<close> below.)
\<close>

definition setupCuratedSection :: "containers \<Rightarrow> catalog \<Rightarrow> curatedUI" where
  "setupCuratedSection html curatedGames =
     displayCuratedGamesForGenre html curatedGames (hd (curatedGenres curatedGames)) 1
       \<lparr>activeCuratedTab = hd (curatedGenres curatedGames),
        currentPageByGenre = Map.empty,
        previousHandler = None,
        nextHandler = None,
        pendingRenders = []\<rparr>"

text \<open>
  What can happen next: a click on the tab of a genre (the handler sets
  \<open>activeCuratedTab\<close> and displays page 1 of it), a click on Previous or Next if the button
  is there, or the completion of a suspended display, which renders the pagination
  controls. \<open>step\<close> is \<open>None\<close> for an event that cannot happen in the state.
\<close>

datatype event = SelectTab string | ClickPrevious | ClickNext | RenderDone nat

fun step :: "containers \<Rightarrow> catalog \<Rightarrow> event \<Rightarrow> curatedUI \<Rightarrow> curatedUI option" where
  "step html curatedGames (SelectTab genre) ui =
     (if genre \<in> set (curatedGenres curatedGames)
      then Some (displayCuratedGamesForGenre html curatedGames genre 1 (ui\<lparr>activeCuratedTab := genre\<rparr>))
      else None)"
| "step html curatedGames ClickPrevious ui =
     (case previousHandler ui of
        None \<Rightarrow> None
      | Some (genre, page) \<Rightarrow> Some (displayCuratedGamesForGenre html curatedGames genre page ui))"
| "step html curatedGames ClickNext ui =
     (case nextHandler ui of
        None \<Rightarrow> None
      | Some (genre, page) \<Rightarrow> Some (displayCuratedGamesForGenre html curatedGames genre page ui))"
| "step html curatedGames (RenderDone k) ui =
     (if k < length (pendingRenders ui)
      then (case pendingRenders ui ! k of
              (genre, page, pages) \<Rightarrow>
                Some (renderCuratedPagination html genre page pages
                        (ui\<lparr>pendingRenders := take k (pendingRenders ui) @ drop (Suc k) (pendingRenders ui)\<rparr>)))
      else None)"

fun run :: "containers \<Rightarrow> catalog \<Rightarrow> event list \<Rightarrow> curatedUI \<Rightarrow> curatedUI option" where
  "run html curatedGames [] ui = Some ui"
| "run html curatedGames (ev # evs) ui =
     (case step html curatedGames ev ui of
        None \<Rightarrow> None
      | Some ui' \<Rightarrow> run html curatedGames evs ui')"

definition pageAfter :: "containers \<Rightarrow> catalog \<Rightarrow> event list \<Rightarrow> string \<Rightarrow> int option" where
  "pageAfter html curatedGames evs genre =
     (case run html curatedGames evs (setupCuratedSection html curatedGames) of
        None \<Rightarrow> None
      | Some ui \<Rightarrow> currentPageByGenre ui genre)"

text \<open>The invariant of the section, and the catalogs it is proved for: there is a genre,
  and every genre lists at least one game.\<close>

definition pagesOf :: "catalog \<Rightarrow> string \<Rightarrow> int" where
  "pagesOf curatedGames genre =
     (case map_of curatedGames genre of None \<Rightarrow> 0 | Some categoryData \<Rightarrow> totalPages (games categoryData))"

definition validPage :: "catalog \<Rightarrow> string \<times> int \<Rightarrow> bool" where
  "validPage curatedGames gp \<longleftrightarrow> 1 \<le> snd gp \<and> snd gp \<le> pagesOf curatedGames (fst gp)"

definition paginationInvariant :: "catalog \<Rightarrow> curatedUI \<Rightarrow> bool" where
  "paginationInvariant curatedGames ui \<longleftrightarrow>
     (\<forall>genre page. currentPageByGenre ui genre = Some page \<longrightarrow> validPage curatedGames (genre, page))
     \<and> (\<forall>gp. previousHandler ui = Some gp \<longrightarrow> validPage curatedGames gp)
     \<and> (\<forall>gp. nextHandler ui = Some gp \<longrightarrow> validPage curatedGames gp)
     \<and> (\<forall>(genre, page, pages) \<in> set (pendingRenders ui).
           pages = pagesOf curatedGames genre \<and> validPage curatedGames (genre, page))"

definition populated :: "catalog \<Rightarrow> bool" where
  "populated curatedGames \<longleftrightarrow> curatedGames \<noteq> [] \<and> (\<forall>(genre, categoryData) \<in> set curatedGames. games categoryData \<noteq> [])"

text \<open>A catalog and a page for the examples.\<close>

definition exampleCatalog :: catalog where
  "exampleCatalog =
     [(''RPG'', \<lparr>link = ''https://example.org/rpg'',
                games = replicate 9 \<lparr>title = ''Ys Seven'', slug = ''ys-seven''\<rparr>\<rparr>),
      (''Puzzle'', \<lparr>link = ''https://example.org/puzzle'',
                   games = [\<lparr>title = ''Lumines'', slug = ''lumines''\<rparr>]\<rparr>)]"

definition examplePage :: containers where
  "examplePage = \<lparr>gridPresent = True, paginationPresent = True\<rparr>"

chapter \<open>Properties\<close>

section \<open>The recurrence counts the fewest edits\<close>

lemma ed_Nil2 [simp]: "ed xs [] = length xs"
  by (cases xs) simp_all

lemma ed_del_head: "ed (x # a) b \<le> ed a b + 1"
  by (cases b) simp_all

lemma ed_del_head2: "ed a (y # b) \<le> ed a b + 1"
  by (cases a) simp_all

lemma ed_subst_le: "ed (x # a) (y # b) \<le> ed a b + (if x = y then 0 else 1)"
  by simp

lemma ed_Cons_cases:
  "ed (x # a) (y # b) = ed a (y # b) + 1 \<or> ed (x # a) (y # b) = ed (x # a) b + 1
   \<or> ed (x # a) (y # b) = ed a b + (if x = y then 0 else 1)"
  by (simp add: min_def)

lemma ed_ins_head: "ed a b \<le> ed (x # a) b + 1"
proof (induction b)
  case Nil
  show ?case by simp
next
  case (Cons y b)
  have 1: "ed a (y # b) \<le> ed a (y # b) + 1 + 1" by simp
  have 2: "ed a (y # b) \<le> ed (x # a) b + 1 + 1"
    using Cons.IH ed_del_head2 [of a y b] by linarith
  have 3: "ed a (y # b) \<le> ed a b + (if x = y then 0 else 1) + 1"
    using ed_del_head2 [of a y b] by simp
  show ?case using 1 2 3 ed_Cons_cases [of x a y b] by presburger
qed

lemma ed_subst_head: "ed (x # a) b \<le> ed (x' # a) b + 1"
proof (induction b)
  case Nil
  show ?case by simp
next
  case (Cons y b)
  have 1: "ed (x # a) (y # b) \<le> ed a (y # b) + 1 + 1"
    using ed_del_head [of x a "y # b"] by linarith
  have 2: "ed (x # a) (y # b) \<le> ed (x' # a) b + 1 + 1"
    using Cons.IH ed_del_head2 [of "x # a" y b] by linarith
  have "ed (x # a) (y # b) \<le> ed a b + 1"
    using ed_subst_le [of x a y b] by (simp split: if_splits del: ed.simps)
  then have 3: "ed (x # a) (y # b) \<le> ed a b + (if x' = y then 0 else 1) + 1"
    by linarith
  show ?case using 1 2 3 ed_Cons_cases [of x' a y b] by presburger
qed

lemma ed_ctx:
  assumes "\<And>b. ed a b \<le> ed a' b + 1"
  shows "ed (x # a) b \<le> ed (x # a') b + 1"
proof (induction b)
  case Nil
  show ?case using assms [of "[]"] by simp
next
  case (Cons y b)
  have 1: "ed (x # a) (y # b) \<le> ed a' (y # b) + 1 + 1"
    using ed_del_head [of x a "y # b"] assms [of "y # b"] by linarith
  have 2: "ed (x # a) (y # b) \<le> ed (x # a') b + 1 + 1"
    using Cons.IH ed_del_head2 [of "x # a" y b] by linarith
  have 3: "ed (x # a) (y # b) \<le> ed a' b + (if x = y then 0 else 1) + 1"
    using assms [of b] ed_subst_le [of x a y b] by linarith
  show ?case using 1 2 3 ed_Cons_cases [of x a' y b] by presburger
qed

lemma ed_mid:
  assumes "\<And>b. ed u b \<le> ed u' b + 1"
  shows "ed (xs @ u) b \<le> ed (xs @ u') b + 1"
proof (induction xs arbitrary: b)
  case Nil
  show ?case using assms by simp
next
  case (Cons x xs)
  show ?case using ed_ctx [of "xs @ u" "xs @ u'" x b] Cons.IH by simp
qed

lemma ed_edit1:
  assumes "edit1 a a'"
  shows "ed a b \<le> ed a' b + 1"
proof -
  have i: "ed (xs @ ys) b \<le> ed (xs @ c # ys) b + 1" for xs ys c
    by (rule ed_mid) (rule ed_ins_head)
  have d: "ed (xs @ c # ys) b \<le> ed (xs @ ys) b + 1" for xs ys c
    by (rule ed_mid) (rule ed_del_head)
  have s: "ed (xs @ c # ys) b \<le> ed (xs @ d # ys) b + 1" for xs ys c d
    by (rule ed_mid) (rule ed_subst_head)
  from assms show ?thesis
    unfolding edit1_def using i d s by (elim disjE exE conjE) simp_all
qed

lemma ed_same: "ed a a = 0"
  by (induction a) simp_all

lemma ed_lower: "edits n a b \<Longrightarrow> ed a b \<le> n"
proof (induction rule: edits.induct)
  case (edits_0 a)
  show ?case by (simp add: ed_same)
next
  case (edits_Suc a a' n b)
  then show ?case using ed_edit1 [of a a' b] by linarith
qed

lemma edit1_Cons: "edit1 a a' \<Longrightarrow> edit1 (c # a) (c # a')"
  unfolding edit1_def
  by (metis append_Cons)

lemma edits_Cons: "edits n a b \<Longrightarrow> edits n (c # a) (c # b)"
  by (induction rule: edits.induct) (auto intro: edits.intros edit1_Cons)

lemma edit1_ins: "edit1 a (c # a)"
  unfolding edit1_def by (metis append_Nil)

lemma edit1_del: "edit1 (c # a) a"
  unfolding edit1_def by (metis append_Nil)

lemma edit1_subst: "edit1 (c # a) (d # a)"
  unfolding edit1_def by (metis append_Nil)

lemma edits_from_Nil: "edits (length ys) [] ys"
proof (induction ys)
  case Nil
  show ?case by (simp add: edits_0)
next
  case (Cons y ys)
  have "edits (length ys) [y] (y # ys)" using Cons.IH by (rule edits_Cons)
  then show ?case using edit1_ins [of "[]" y] by (auto intro: edits_Suc)
qed

lemma edits_to_Nil: "edits (length xs) xs []"
proof (induction xs)
  case Nil
  show ?case by (simp add: edits_0)
next
  case (Cons x xs)
  then show ?case using edit1_del [of x xs] by (auto intro: edits_Suc)
qed

lemma edits_ed: "edits (ed a b) a b"
proof (induction a b rule: ed.induct)
  case (1 ys)
  show ?case by (simp add: edits_from_Nil)
next
  case (2 v va)
  show ?case using edits_to_Nil [of "v # va"] by simp
next
  case (3 x xs y ys)
  let ?d = "ed xs (y # ys) + 1" and ?i = "ed (x # xs) ys + 1"
    and ?s = "ed xs ys + (if x = y then 0 else 1)"
  have d: "edits ?d (x # xs) (y # ys)"
    using edits_Suc [OF edit1_del [of x xs] "3.IH"(1)] by simp
  have i: "edits ?i (x # xs) (y # ys)"
    using edits_Suc [OF edit1_ins [of "x # xs" y] edits_Cons [OF "3.IH"(2), of y]] by simp
  have s: "edits ?s (x # xs) (y # ys)"
  proof (cases "x = y")
    case True
    then show ?thesis using edits_Cons [OF "3.IH"(3), of y] by simp
  next
    case False
    then show ?thesis
      using edits_Suc [OF edit1_subst [of x xs y] edits_Cons [OF "3.IH"(3), of y]] by simp
  qed
  have "ed (x # xs) (y # ys) = ?d \<or> ed (x # xs) (y # ys) = ?i \<or> ed (x # xs) (y # ys) = ?s"
    by (simp add: min_def)
  then show ?case using d i s by metis
qed

lemma edit1_rev: "edit1 a a' \<Longrightarrow> edit1 (rev a) (rev a')"
  unfolding edit1_def
  apply (elim disjE exE conjE)
    apply (rule disjI1, simp, metis)
   apply (rule disjI2, rule disjI1, simp, metis)
  apply (rule disjI2, rule disjI2, simp, metis)
  done

lemma edits_rev: "edits n a b \<Longrightarrow> edits n (rev a) (rev b)"
  by (induction rule: edits.induct) (auto intro: edits.intros edit1_rev)

lemma ed_rev_le: "ed (rev a) (rev b) \<le> ed a b"
  using ed_lower [OF edits_rev [OF edits_ed [of a b]]] .

lemma ed_rev: "ed (rev a) (rev b) = ed a b"
  using ed_rev_le [of a b] ed_rev_le [of "rev a" "rev b"] by simp

lemma ed_sym: "ed a b = ed b a"
  by (induction a b rule: ed.induct) (simp_all add: min.commute min.left_commute eq_commute)

section \<open>The table of \<open>levenshteinDistance\<close> holds the recurrence\<close>

lemma dims_setCell:
  assumes "dims la lb m"
  shows "dims la lb (setCell m j i v)"
proof -
  have "length ((m[j := (m ! j)[i := Some v]]) ! ja) = la + 1" if "ja \<le> lb" for ja
  proof (cases "ja = j")
    case True
    then show ?thesis using assms that by (simp add: dims_def)
  next
    case False
    then show ?thesis using assms that by (simp add: dims_def)
  qed
  then show ?thesis using assms by (simp add: dims_def setCell_def)
qed

lemma getCell_setCell:
  "dims la lb m \<Longrightarrow> j \<le> lb \<Longrightarrow> i \<le> la \<Longrightarrow>
   getCell (setCell m j i v) j' i' = (if j' = j \<and> i' = i then Some v else getCell m j' i')"
  by (auto simp: dims_def setCell_def getCell_def nth_list_update)

lemma dims_newMatrix: "dims la lb (newMatrix (lb + 1) (la + 1))"
  by (simp add: dims_def newMatrix_def del: replicate_Suc)

lemma fillFirstRow_cells:
  "dims la lb m \<Longrightarrow>
   dims la lb (fillFirstRow la i m) \<and>
   (\<forall>j' i'. getCell (fillFirstRow la i m) j' i' =
      (if j' = 0 \<and> i \<le> i' \<and> i' \<le> la then Some i' else getCell m j' i'))"
proof (induction la i m rule: fillFirstRow.induct)
  case (1 la i m)
  show ?case
  proof (cases "i \<le> la")
    case True
    have d: "dims la lb (setCell m 0 i i)" using "1.prems" by (rule dims_setCell)
    have g: "getCell (setCell m 0 i i) j' i' = (if j' = 0 \<and> i' = i then Some i else getCell m j' i')"
      for j' i' using getCell_setCell [OF "1.prems" _ True, of 0] by simp
    from "1.IH" [OF True d] True show ?thesis
      by (subst fillFirstRow.simps, subst (2) fillFirstRow.simps) (auto simp: g)
  next
    case False
    then show ?thesis using "1.prems" by (subst fillFirstRow.simps, subst (2) fillFirstRow.simps) auto
  qed
qed

lemma fillFirstCol_cells:
  "dims la lb m \<Longrightarrow>
   dims la lb (fillFirstCol lb j m) \<and>
   (\<forall>j' i'. getCell (fillFirstCol lb j m) j' i' =
      (if i' = 0 \<and> j \<le> j' \<and> j' \<le> lb then Some j' else getCell m j' i'))"
proof (induction lb j m rule: fillFirstCol.induct)
  case (1 lb j m)
  show ?case
  proof (cases "j \<le> lb")
    case True
    have d: "dims la lb (setCell m j 0 j)" using "1.prems" by (rule dims_setCell)
    have g: "getCell (setCell m j 0 j) j' i' = (if j' = j \<and> i' = 0 then Some j else getCell m j' i')"
      for j' i' using getCell_setCell [OF "1.prems" True, of 0] by simp
    from "1.IH" [OF True d] True show ?thesis
      by (subst fillFirstCol.simps, subst (2) fillFirstCol.simps) (auto simp: g)
  next
    case False
    then show ?thesis using "1.prems" by (subst fillFirstCol.simps, subst (2) fillFirstCol.simps) auto
  qed
qed

lemma prefixDist_0_left: "j \<le> length b \<Longrightarrow> prefixDist a b 0 j = j"
  by (simp add: prefixDist_def)

lemma prefixDist_0_right: "i \<le> length a \<Longrightarrow> prefixDist a b i 0 = i"
  by (simp add: prefixDist_def)

lemma prefixDist_rec:
  assumes "1 \<le> i" "i \<le> length a" "1 \<le> j" "j \<le> length b"
  shows "prefixDist a b i j =
     min (min (prefixDist a b (i - 1) j + 1) (prefixDist a b i (j - 1) + 1))
         (prefixDist a b (i - 1) (j - 1) + (if a ! (i - 1) = b ! (j - 1) then 0 else 1))"
proof -
  obtain i0 where i: "i = Suc i0" using assms(1) by (cases i) auto
  obtain j0 where j: "j = Suc j0" using assms(3) by (cases j) auto
  have a: "rev (take i a) = a ! i0 # rev (take i0 a)"
    using assms(2) i by (simp add: take_Suc_conv_app_nth)
  have b: "rev (take j b) = b ! j0 # rev (take j0 b)"
    using assms(4) j by (simp add: take_Suc_conv_app_nth)
  show ?thesis
    unfolding prefixDist_def a b unfolding i j by simp
qed

lemma filled_init:
  "filled a b (fillFirstCol (length b) 0 (fillFirstRow (length a) 0
      (newMatrix (length b + 1) (length a + 1)))) 1 1"
proof -
  let ?m0 = "newMatrix (length b + 1) (length a + 1)"
  let ?m1 = "fillFirstRow (length a) 0 ?m0"
  note r = fillFirstRow_cells [OF dims_newMatrix [of "length a" "length b"], of 0]
  note c = fillFirstCol_cells [OF conjunct1 [OF r], of 0]
  show ?thesis
    unfolding filled_def
    using c r by (auto simp: prefixDist_0_left prefixDist_0_right)
qed

lemma cellValue_filled:
  assumes "filled a b m j i" "1 \<le> i" "i \<le> length a" "1 \<le> j" "j \<le> length b"
  shows "cellValue a b m j i = prefixDist a b i j"
proof -
  have f: "j' \<le> length b \<Longrightarrow> i' \<le> length a \<Longrightarrow> j' < j \<or> (j' = j \<and> i' < i) \<or> i' = 0
      \<Longrightarrow> getCell m j' i' = Some (prefixDist a b i' j')" for j' i'
    using assms(1) unfolding filled_def by blast
  have 1: "getCell m j (i - 1) = Some (prefixDist a b (i - 1) j)"
    using assms(2-5) by (intro f) auto
  have 2: "getCell m (j - 1) i = Some (prefixDist a b i (j - 1))"
    using assms(2-5) by (intro f) auto
  have 3: "getCell m (j - 1) (i - 1) = Some (prefixDist a b (i - 1) (j - 1))"
    using assms(2-5) by (intro f) auto
  show ?thesis
    unfolding cellValue_def 1 2 3 prefixDist_rec [OF assms(2-5)]
    by (simp add: toNumber_def Let_def)
qed

lemma filled_step:
  assumes "filled a b m j i" "1 \<le> i" "i \<le> length a" "1 \<le> j" "j \<le> length b"
  shows "filled a b (setCell m j i (cellValue a b m j i)) j (i + 1)"
proof -
  have d: "dims (length a) (length b) m" using assms(1) by (simp add: filled_def)
  note g = getCell_setCell [OF d assms(5) assms(3)]
  show ?thesis
    unfolding filled_def
  proof (intro conjI allI impI)
    show "dims (length a) (length b) (setCell m j i (cellValue a b m j i))"
      using d by (rule dims_setCell)
  next
    fix j' i'
    assume h: "j' \<le> length b \<and> i' \<le> length a \<and> (j' < j \<or> j' = j \<and> i' < i + 1 \<or> i' = 0)"
    show "getCell (setCell m j i (cellValue a b m j i)) j' i' = Some (prefixDist a b i' j')"
    proof (cases "j' = j \<and> i' = i")
      case True
      then show ?thesis using g cellValue_filled [OF assms] by simp
    next
      case False
      then have "j' < j \<or> j' = j \<and> i' < i \<or> i' = 0" using h by auto
      then have "getCell m j' i' = Some (prefixDist a b i' j')"
        using assms(1) h unfolding filled_def by blast
      then show ?thesis using False by (auto simp: g)
    qed
  qed
qed

lemma innerLoop_filled:
  "filled a b m j i \<Longrightarrow> 1 \<le> i \<Longrightarrow> 1 \<le> j \<Longrightarrow> j \<le> length b \<Longrightarrow>
   filled a b (innerLoop a b j i m) (j + 1) 1"
proof (induction a b j i m rule: innerLoop.induct)
  case (1 a b j i m)
  show ?case
  proof (cases "i \<le> length a")
    case True
    have "filled a b (setCell m j i (cellValue a b m j i)) j (i + 1)"
      using filled_step [OF "1.prems"(1,2) True "1.prems"(3,4)] .
    from "1.IH" [OF True this] "1.prems" True show ?thesis
      by (subst innerLoop.simps) simp
  next
    case False
    have "filled a b m (j + 1) 1"
      using "1.prems"(1) False unfolding filled_def by (auto simp: less_Suc_eq)
    then show ?thesis using False by (subst innerLoop.simps) simp
  qed
qed

lemma outerLoop_filled:
  "filled a b m j 1 \<Longrightarrow> 1 \<le> j \<Longrightarrow> filled a b (outerLoop a b j m) (length b + 1) 1"
proof (induction a b j m rule: outerLoop.induct)
  case (1 a b j m)
  show ?case
  proof (cases "j \<le> length b")
    case True
    have "filled a b (innerLoop a b j 1 m) (j + 1) 1"
      using innerLoop_filled [OF "1.prems"(1) _ "1.prems"(2) True] by simp
    from "1.IH" [OF True this] True show ?thesis
      by (subst outerLoop.simps) simp
  next
    case False
    have "filled a b m (length b + 1) 1"
      using "1.prems" False unfolding filled_def by auto
    then show ?thesis using False by (subst outerLoop.simps) simp
  qed
qed

lemma levenshteinMatrix_filled: "filled a b (levenshteinMatrix a b) (length b + 1) 1"
  unfolding levenshteinMatrix_def
  by (rule outerLoop_filled [OF filled_init]) simp

lemma levenshteinDistance_ed: "levenshteinDistance a b = Some (ed a b)"
proof -
  have "getCell (levenshteinMatrix a b) (length b) (length a)
        = Some (prefixDist a b (length a) (length b))"
    using levenshteinMatrix_filled [of a b] unfolding filled_def by auto
  then show ?thesis
    by (simp add: levenshteinDistance_def prefixDist_def ed_rev)
qed

section \<open>Claims about the edit-distance scorer\<close>

text \<open>
  C4. For every pair of strings \<open>a\<close> and \<open>b\<close>, \<open>levenshteinDistance a b\<close> returns a number,
  and that number is the minimum number of single-character insertions, deletions and
  substitutions that transform \<open>a\<close> into \<open>b\<close>: some chain of that many edits leads from \<open>a\<close>
  to \<open>b\<close>, and no chain is shorter. The function is total, also on empty strings, and
  the distance from the empty string to \<open>b\<close> is the length of \<open>b\<close>.
\<close>

theorem levenshteinDistance_fewest_edits:
  "(\<exists>d. levenshteinDistance a b = Some d \<and> edits d a b \<and> (\<forall>n. edits n a b \<longrightarrow> d \<le> n))
   \<and> levenshteinDistance [] b = Some (length b)"
  using edits_ed [of a b] ed_lower [of _ a b]
  by (simp add: levenshteinDistance_ed)

theorem levenshteinDistance_fewest_edits_witness:
  "edits 1 ''ab'' ''b'' \<and> (\<exists>d. levenshteinDistance ''ab'' ''b'' = Some d \<and> d \<le> 1)"
proof -
  have e: "edits 1 ''ab'' ''b''"
    using edits_Suc [OF edit1_del [of "CHR ''a''" "''b''"] edits_0] by simp
  from levenshteinDistance_fewest_edits [of "''ab''" "''b''"] e
  show ?thesis by blast
qed

text \<open>
  C7. For every string \<open>s\<close>, \<open>levenshteinDistance s s = 0\<close>; for every pair of strings the
  distance is symmetric; the distance from the empty string to \<open>abc\<close> is 3 and the distance
  from \<open>kitten\<close> to \<open>sitting\<close> is 3 (both evaluated on the table-filling loops).
\<close>

theorem levenshteinDistance_identity_symmetry:
  "levenshteinDistance s s = Some 0
   \<and> levenshteinDistance a b = levenshteinDistance b a
   \<and> levenshteinDistance [] ''abc'' = Some 3
   \<and> levenshteinDistance ''kitten'' ''sitting'' = Some 3"
proof (intro conjI)
  show "levenshteinDistance s s = Some 0"
    by (simp add: levenshteinDistance_ed ed_same)
  show "levenshteinDistance a b = levenshteinDistance b a"
    using ed_sym [of a b] by (simp add: levenshteinDistance_ed)
  show "levenshteinDistance [] ''abc'' = Some 3"
    by code_simp
  show "levenshteinDistance ''kitten'' ''sitting'' = Some 3"
    by code_simp
qed

section \<open>The match selector picks the first candidate of least distance\<close>

lemma hd_insort_key:
  "hd (insort_key f x ys) = (if ys = [] \<or> f x \<le> f (hd ys) then x else hd ys)"
  by (cases ys) auto

lemma find_first_min_sort_key:
  fixes f :: "'a \<Rightarrow> nat"
  shows "xs \<noteq> [] \<Longrightarrow> find (\<lambda>x. f x = Min (f ` set xs)) xs = Some (hd (sort_key f xs))"
proof (induction xs)
  case Nil
  then show ?case by simp
next
  case (Cons x xs)
  show ?case
  proof (cases "xs = []")
    case True
    then show ?thesis by simp
  next
    case False
    let ?m = "Min (f ` set xs)" and ?h = "hd (sort_key f xs)"
    have ih: "find (\<lambda>y. f y = ?m) xs = Some ?h" using Cons.IH False by simp
    then have fh: "f ?h = ?m" by (auto simp: find_Some_iff)
    have ne: "sort_key f xs \<noteq> []" using False by (metis length_sort length_0_conv)
    have M: "Min (f ` set (x # xs)) = min (f x) ?m" using False by simp
    have H: "hd (sort_key f (x # xs)) = (if f x \<le> ?m then x else ?h)"
      using ne fh by (simp add: hd_insort_key)
    show ?thesis
    proof (cases "f x \<le> ?m")
      case True
      then show ?thesis unfolding M H by (simp add: min_def)
    next
      case False
      then show ?thesis unfolding M H using ih by (simp add: min_def)
    qed
  qed
qed

lemma find_map_comp: "find P (map f xs) = map_option f (find (\<lambda>x. P (f x)) xs)"
  by (induction xs) simp_all

lemma scoreResults_nonempty:
  assumes "results \<noteq> []"
  shows "scoreResults lc t results \<noteq> []"
proof -
  have "length (scoreResults lc t results) = length results"
    by (simp add: scoreResults_def)
  then show ?thesis using assms by auto
qed

lemma hd_scoreResults:
  assumes "results \<noteq> []"
  shows "\<exists>g. find (\<lambda>g. candidateDistance lc t g = Min (candidateDistance lc t ` set results)) results = Some g
          \<and> game (hd (scoreResults lc (lc t) results)) = g
          \<and> toNumber (score (hd (scoreResults lc (lc t) results))) = Min (candidateDistance lc t ` set results)"
proof -
  let ?mk = "\<lambda>g. \<lparr>game = g, score = levenshteinDistance (lc t) (lc (name g))\<rparr>"
  let ?k = "\<lambda>r::'a game_scheme scoredResult. toNumber (score r)"
  let ?d = "candidateDistance lc t"
  have k: "?k (?mk g) = ?d g" for g by (simp add: candidateDistance_def)
  have img: "?k ` set (map ?mk results) = ?d ` set results"
    by (simp add: image_image candidateDistance_def)
  have "find (\<lambda>r. ?k r = Min (?k ` set (map ?mk results))) (map ?mk results)
        = Some (hd (scoreResults lc (lc t) results))"
    unfolding scoreResults_def using assms by (intro find_first_min_sort_key) simp
  then have "map_option ?mk (find (\<lambda>g. ?d g = Min (?d ` set results)) results)
        = Some (hd (scoreResults lc (lc t) results))"
    unfolding img find_map_comp k .
  then obtain g where g: "find (\<lambda>g. ?d g = Min (?d ` set results)) results = Some g"
    and h: "hd (scoreResults lc (lc t) results) = ?mk g" by auto
  from g have "?d g = Min (?d ` set results)" by (auto simp: find_Some_iff)
  then show ?thesis using g h by (simp add: candidateDistance_def)
qed

lemma findBestMatch_exact:
  assumes "find (\<lambda>g. lc (name g) = lc t) results = Some g"
  shows "findBestMatch lc t results = Some g"
proof -
  have "results \<noteq> []" using assms by auto
  then show ?thesis using assms by (simp add: findBestMatch_def)
qed

lemma findBestMatch_fuzzy:
  assumes "results \<noteq> []" and "find (\<lambda>g. lc (name g) = lc t) results = None"
  shows "findBestMatch lc t results =
     (if real (Min (candidateDistance lc t ` set results)) < real (length t) / 2
      then find (\<lambda>g. candidateDistance lc t g = Min (candidateDistance lc t ` set results)) results
      else None)"
proof -
  from hd_scoreResults [OF assms(1), of lc t] obtain g where
    "find (\<lambda>g. candidateDistance lc t g = Min (candidateDistance lc t ` set results)) results = Some g"
    "game (hd (scoreResults lc (lc t) results)) = g"
    "toNumber (score (hd (scoreResults lc (lc t) results))) = Min (candidateDistance lc t ` set results)"
    by blast
  then show ?thesis using assms by (simp add: findBestMatch_def Let_def)
qed

lemma find_in_set: "find P xs = Some x \<Longrightarrow> x \<in> set xs"
  by (auto simp: find_Some_iff)

lemma candidateDistance_ed: "candidateDistance lc t g = ed (lc t) (lc (name g))"
  by (simp add: candidateDistance_def levenshteinDistance_ed toNumber_def)

lemma name_exampleGame: "name (exampleGame n) = n"
  by (simp add: exampleGame_def)

lemma toLowerCaseAscii_examples:
  "toLowerCaseAscii ''Rez'' = ''rez''"
  "toLowerCaseAscii ''REZ'' = ''rez''"
  "toLowerCaseAscii ''Rez HD'' = ''rez hd''"
  "toLowerCaseAscii ''Luxor'' = ''luxor''"
  "toLowerCaseAscii ''LUXOR 2'' = ''luxor 2''"
  by code_simp+

lemma levenshteinDistance_luxor: "levenshteinDistance ''luxor'' ''luxor 2'' = Some 2"
  by code_simp

text \<open>The selections the specification lists as tests, evaluated.\<close>

lemma toLowerCaseAscii_spec_examples:
  "toLowerCaseAscii ''God of War'' = ''god of war''"
  "toLowerCaseAscii ''Gods of Warr'' = ''gods of warr''"
  "toLowerCaseAscii ''Go'' = ''go''"
  "toLowerCaseAscii ''Completely Unrelated Title'' = ''completely unrelated title''"
  "toLowerCaseAscii ''Crisis Core'' = ''crisis core''"
  "toLowerCaseAscii ''Crisis Core: Final Fantasy VII'' = ''crisis core: final fantasy vii''"
  by code_simp+

lemma levenshteinDistance_spec_examples:
  "levenshteinDistance ''god of war'' ''gods of warr'' = Some 2"
  "levenshteinDistance ''go'' ''completely unrelated title'' = Some 25"
  by code_simp+

lemma findBestMatch_spec_examples:
  "findBestMatch toLowerCaseAscii ''Final Fantasy'' ([] :: game list) = None"
  "findBestMatch toLowerCaseAscii ''Crisis Core''
     [exampleGame ''Crisis Core'', exampleGame ''Crisis Core: Final Fantasy VII'']
   = Some (exampleGame ''Crisis Core'')"
  "findBestMatch toLowerCaseAscii ''God of War'' [exampleGame ''Gods of Warr'']
   = Some (exampleGame ''Gods of Warr'')"
  "findBestMatch toLowerCaseAscii ''Go'' [exampleGame ''Completely Unrelated Title''] = None"
  by (simp_all add: findBestMatch_def scoreResults_def name_exampleGame
      toLowerCaseAscii_spec_examples levenshteinDistance_spec_examples toNumber_def)

text \<open>The distance the selector minimises is the recurrence, hence the fewest edits.\<close>

lemma candidateDistance_ed_fun:
  "candidateDistance lc t = (\<lambda>g. ed (lc t) (lc (name g)))"
  by (rule ext) (rule candidateDistance_ed)

lemma ed_examples:
  "ed ''luxor'' ''luxor 2'' = 2"
  "ed ''go'' ''completely unrelated title'' = 25"
  "ed ''god of war'' ''gods of warr'' = 2"
  using levenshteinDistance_ed [of "''luxor''" "''luxor 2''"] levenshteinDistance_luxor
    levenshteinDistance_ed [of "''go''" "''completely unrelated title''"]
    levenshteinDistance_ed [of "''god of war''" "''gods of warr''"]
    levenshteinDistance_spec_examples
  by (simp_all only: option.inject)

section \<open>Claims about the match selector\<close>

text \<open>
  C1. For every target title and every ordered candidate list, \<open>findBestMatch\<close> returns
  \<open>null\<close> on the empty list; if some candidate's lowercased name equals the lowercased
  target, it returns the first such candidate; otherwise, with \<open>d\<close> the minimum over the
  candidates of the Levenshtein distance between the lowercased target and the lowercased
  name (the fewest single-character edits: no chain of edits from the target to any
  candidate is shorter than \<open>d\<close>), it returns the first candidate at distance \<open>d\<close>, which a
  chain of \<open>d\<close> edits reaches, if \<open>d\<close> is strictly less than \<open>targetTitle.length / 2\<close>, and
  \<open>null\<close> if not.
\<close>

theorem findBestMatch_contract:
  "(results = [] \<longrightarrow> findBestMatch lc t results = None)
   \<and> ((\<exists>g \<in> set results. lc (name g) = lc t) \<longrightarrow>
        (\<exists>i < length results.
           findBestMatch lc t results = Some (results ! i)
           \<and> lc (name (results ! i)) = lc t
           \<and> (\<forall>j < i. lc (name (results ! j)) \<noteq> lc t)))
   \<and> (results \<noteq> [] \<and> (\<forall>g \<in> set results. lc (name g) \<noteq> lc t) \<longrightarrow>
        (let d = Min ((\<lambda>g. ed (lc t) (lc (name g))) ` set results) in
           (\<forall>g \<in> set results. \<forall>n. edits n (lc t) (lc (name g)) \<longrightarrow> d \<le> n)
           \<and> (if real d < real (length t) / 2
                then \<exists>i < length results.
                       findBestMatch lc t results = Some (results ! i)
                       \<and> edits d (lc t) (lc (name (results ! i)))
                       \<and> ed (lc t) (lc (name (results ! i))) = d
                       \<and> (\<forall>j < i. ed (lc t) (lc (name (results ! j))) \<noteq> d)
                else findBestMatch lc t results = None)))"
proof (intro conjI impI)
  show "findBestMatch lc t results = None" if "results = []"
    using that by (simp add: findBestMatch_def)
next
  assume "\<exists>g \<in> set results. lc (name g) = lc t"
  then obtain g where "find (\<lambda>g. lc (name g) = lc t) results = Some g"
    by (cases "find (\<lambda>g. lc (name g) = lc t) results") (auto simp: find_None_iff)
  then show "\<exists>i < length results.
           findBestMatch lc t results = Some (results ! i)
           \<and> lc (name (results ! i)) = lc t
           \<and> (\<forall>j < i. lc (name (results ! j)) \<noteq> lc t)"
    using findBestMatch_exact [of lc t results g] by (auto simp: find_Some_iff)
next
  assume a: "results \<noteq> [] \<and> (\<forall>g \<in> set results. lc (name g) \<noteq> lc t)"
  then have n: "find (\<lambda>g. lc (name g) = lc t) results = None"
    by (simp add: find_None_iff)
  let ?dist = "\<lambda>g. ed (lc t) (lc (name g))"
  let ?d = "Min (?dist ` set results)"
  have low: "\<forall>g \<in> set results. \<forall>n. edits n (lc t) (lc (name g)) \<longrightarrow> ?d \<le> n"
  proof (intro ballI allI impI)
    fix g n
    assume g: "g \<in> set results" and e: "edits n (lc t) (lc (name g))"
    have "?d \<le> ?dist g" using g by (intro Min_le) auto
    also have "?dist g \<le> n" using e by (rule ed_lower)
    finally show "?d \<le> n" .
  qed
  from hd_scoreResults [of results lc t] a obtain g where
    g: "find (\<lambda>g. ?dist g = ?d) results = Some g"
    unfolding candidateDistance_ed_fun by blast
  have f: "findBestMatch lc t results =
     (if real ?d < real (length t) / 2 then find (\<lambda>g. ?dist g = ?d) results else None)"
    using findBestMatch_fuzzy [OF conjunct1 [OF a] n] unfolding candidateDistance_ed_fun .
  have sel: "if real ?d < real (length t) / 2
             then \<exists>i < length results.
                    findBestMatch lc t results = Some (results ! i)
                    \<and> edits ?d (lc t) (lc (name (results ! i)))
                    \<and> ?dist (results ! i) = ?d
                    \<and> (\<forall>j < i. ?dist (results ! j) \<noteq> ?d)
             else findBestMatch lc t results = None"
  proof (cases "real ?d < real (length t) / 2")
    case True
    from g obtain i where i: "i < length results" "?dist (results ! i) = ?d" "g = results ! i"
      "\<forall>j < i. ?dist (results ! j) \<noteq> ?d"
      unfolding find_Some_iff by blast
    have "edits (?dist (results ! i)) (lc t) (lc (name (results ! i)))" by (rule edits_ed)
    then have "edits ?d (lc t) (lc (name (results ! i)))" using i(2) by simp
    moreover have "findBestMatch lc t results = Some (results ! i)"
      using f True g i(3) by simp
    ultimately show ?thesis using True i by auto
  next
    case False
    then show ?thesis using f by simp
  qed
  show "let d = ?d in
           (\<forall>g \<in> set results. \<forall>n. edits n (lc t) (lc (name g)) \<longrightarrow> d \<le> n)
           \<and> (if real d < real (length t) / 2
                then \<exists>i < length results.
                       findBestMatch lc t results = Some (results ! i)
                       \<and> edits d (lc t) (lc (name (results ! i)))
                       \<and> ed (lc t) (lc (name (results ! i))) = d
                       \<and> (\<forall>j < i. ed (lc t) (lc (name (results ! j))) \<noteq> d)
                else findBestMatch lc t results = None)"
    unfolding Let_def using low sel by (rule conjI)
qed

theorem findBestMatch_contract_witness:
  "findBestMatch toLowerCaseAscii ''Final Fantasy'' ([] :: game list) = None
   \<and> (\<exists>g \<in> set [exampleGame ''Rez HD'', exampleGame ''REZ''].
         toLowerCaseAscii (name g) = toLowerCaseAscii ''Rez'')
   \<and> findBestMatch toLowerCaseAscii ''Rez'' [exampleGame ''Rez HD'', exampleGame ''REZ'']
       = Some (exampleGame ''REZ'')
   \<and> [exampleGame ''LUXOR 2''] \<noteq> []
   \<and> toLowerCaseAscii (name (exampleGame ''LUXOR 2'')) \<noteq> toLowerCaseAscii ''Luxor''
   \<and> findBestMatch toLowerCaseAscii ''Luxor'' [exampleGame ''LUXOR 2'']
       = Some (exampleGame ''LUXOR 2'')
   \<and> [exampleGame ''Completely Unrelated Title''] \<noteq> []
   \<and> toLowerCaseAscii (name (exampleGame ''Completely Unrelated Title'')) \<noteq> toLowerCaseAscii ''Go''
   \<and> findBestMatch toLowerCaseAscii ''Go'' [exampleGame ''Completely Unrelated Title''] = None"
proof -
  let ?lc = toLowerCaseAscii
  let ?cs = "[exampleGame ''Rez HD'', exampleGame ''REZ'']"
  let ?gs = "[exampleGame ''LUXOR 2'']"
  let ?us = "[exampleGame ''Completely Unrelated Title'']"
  note ev = name_exampleGame toLowerCaseAscii_examples toLowerCaseAscii_spec_examples
  have 1: "findBestMatch ?lc ''Final Fantasy'' ([] :: game list) = None"
    using findBestMatch_contract [of "[] :: game list" ?lc "''Final Fantasy''"] by simp
  have h2: "\<exists>g \<in> set ?cs. ?lc (name g) = ?lc ''Rez''"
    by (simp add: ev)
  from findBestMatch_contract [of ?cs ?lc "''Rez''"] h2 obtain i where
    i: "i < length ?cs" "findBestMatch ?lc ''Rez'' ?cs = Some (?cs ! i)"
       "?lc (name (?cs ! i)) = ?lc ''Rez''"
    by blast
  have "i \<noteq> 0"
  proof
    assume "i = 0"
    then show False using i(3) by (simp add: ev)
  qed
  then have "i = 1" using i(1) by simp
  then have 2: "findBestMatch ?lc ''Rez'' ?cs = Some (exampleGame ''REZ'')"
    using i(2) by simp
  have h3: "?gs \<noteq> [] \<and> (\<forall>g \<in> set ?gs. ?lc (name g) \<noteq> ?lc ''Luxor'')"
    by (simp add: ev)
  have d3: "Min ((\<lambda>g. ed (?lc ''Luxor'') (?lc (name g))) ` set ?gs) = 2"
    by (simp add: ev ed_examples del: ed.simps)
  have 3: "findBestMatch ?lc ''Luxor'' ?gs = Some (exampleGame ''LUXOR 2'')"
    using findBestMatch_contract [of ?gs ?lc "''Luxor''"] h3 unfolding d3 Let_def by simp
  have h3': "?lc (name (exampleGame ''LUXOR 2'')) \<noteq> ?lc ''Luxor''"
    using h3 by simp
  have h4: "?us \<noteq> [] \<and> (\<forall>g \<in> set ?us. ?lc (name g) \<noteq> ?lc ''Go'')"
    by (simp add: ev)
  have d4: "Min ((\<lambda>g. ed (?lc ''Go'') (?lc (name g))) ` set ?us) = 25"
    by (simp add: ev ed_examples del: ed.simps)
  have 4: "findBestMatch ?lc ''Go'' ?us = None"
    using findBestMatch_contract [of ?us ?lc "''Go''"] h4 unfolding d4 Let_def by simp
  have h4': "?lc (name (exampleGame ''Completely Unrelated Title'')) \<noteq> ?lc ''Go''"
    using h4 by simp
  show ?thesis using 1 h2 2 h3 h3' 3 h4 h4' 4 by blast
qed

text \<open>
  C9. For every target title and every candidate list, what \<open>findBestMatch\<close> returns is
  \<open>null\<close> or an element of the supplied candidate list: it builds no record of its own.
  (A record is an immutable value here, and the name of a candidate is always present.)
\<close>

theorem findBestMatch_member:
  "findBestMatch lc t results = Some g \<Longrightarrow> g \<in> set results"
proof (cases "find (\<lambda>g. lc (name g) = lc t) results")
  case None
  assume r: "findBestMatch lc t results = Some g"
  then have "results \<noteq> []" by (auto simp: findBestMatch_def)
  from r findBestMatch_fuzzy [OF this None] show ?thesis
    by (auto split: if_splits dest: find_in_set)
next
  case (Some e)
  assume "findBestMatch lc t results = Some g"
  then show ?thesis using findBestMatch_exact [OF Some] Some by (auto dest: find_in_set)
qed

theorem findBestMatch_member_witness:
  "findBestMatch toLowerCaseAscii ''Luxor'' [exampleGame ''LUXOR 2''] = Some (exampleGame ''LUXOR 2'')
   \<and> exampleGame ''LUXOR 2'' \<in> set [exampleGame ''LUXOR 2'']"
proof -
  have e: "findBestMatch toLowerCaseAscii ''Luxor'' [exampleGame ''LUXOR 2'']
     = Some (exampleGame ''LUXOR 2'')"
    by (simp add: findBestMatch_def scoreResults_def name_exampleGame
        toLowerCaseAscii_examples levenshteinDistance_luxor toNumber_def)
  from findBestMatch_member [OF e] e show ?thesis by simp
qed

section \<open>Slices and pages\<close>

lemma js_slice_from_0: "js_slice xs 0 (int n) = take n xs"
  by (simp add: js_slice_def Let_def min_def)

lemma js_slice_nonneg:
  "0 \<le> start \<Longrightarrow> start \<le> fin \<Longrightarrow> js_slice xs start fin = take (nat (fin - start)) (drop (nat start) xs)"
  by (cases "start \<le> int (length xs)") (auto simp: js_slice_def Let_def min_def max_def)

lemma pageGameObjects_take_drop:
  assumes "1 \<le> page"
  shows "pageGameObjects allGameObjects page = take 8 (drop (8 * (nat page - 1)) allGameObjects)"
proof -
  define m where "m = nat page - 1"
  have page: "page = int m + 1" using assms by (simp add: m_def)
  have n: "nat ((page - 1) * 8) = 8 * m" by (simp add: page)
  have c: "nat ((page - 1) * 8 + 8 - (page - 1) * 8) = 8" by simp
  have "pageGameObjects allGameObjects page
        = take (nat ((page - 1) * 8 + 8 - (page - 1) * 8)) (drop (nat ((page - 1) * 8)) allGameObjects)"
    unfolding pageGameObjects_def Let_def gamesPerPage_def
    using assms by (intro js_slice_nonneg) auto
  then show ?thesis unfolding n c by (simp add: m_def)
qed

lemma totalPages_div: "totalPages allGameObjects = int ((length allGameObjects + 7) div 8)"
proof -
  have "\<lceil>real_of_int (int (length allGameObjects)) / real_of_int 8\<rceil> = - (- int (length allGameObjects) div 8)"
    by (rule ceiling_divide_eq_div)
  moreover have "- (- a div 8) = (a + 7) div 8" for a :: int
    by presburger
  moreover have "int ((length allGameObjects + 7) div 8) = (int (length allGameObjects) + 7) div 8"
    by (simp add: zdiv_int)
  ultimately show ?thesis by (simp add: totalPages_def gamesPerPage_def)
qed

text \<open>
  C5. For every curated list and every page number \<open>p\<close> (pages are numbered from 1), the
  page view is the slice of the list from index \<open>(p - 1) * 8\<close> up to, excluding,
  \<open>p * 8\<close>, in list order; page 1 is the first 8 entries (fewer if the list is shorter);
  and the last page of a non-empty list is what remains, between 1 and 8 entries.
\<close>

theorem pageGameObjects_slice:
  "1 \<le> page \<longrightarrow>
     pageGameObjects allGameObjects page = take 8 (drop (8 * (nat page - 1)) allGameObjects)
     \<and> length (pageGameObjects allGameObjects page) = min 8 (length allGameObjects - 8 * (nat page - 1))
     \<and> (\<forall>k < length (pageGameObjects allGameObjects page).
           pageGameObjects allGameObjects page ! k = allGameObjects ! (8 * (nat page - 1) + k))
     \<and> pageGameObjects allGameObjects 1 = take 8 allGameObjects
     \<and> (allGameObjects \<noteq> [] \<longrightarrow>
           1 \<le> totalPages allGameObjects
           \<and> pageGameObjects allGameObjects (totalPages allGameObjects) = drop (8 * (nat (totalPages allGameObjects) - 1)) allGameObjects
           \<and> 1 \<le> length (pageGameObjects allGameObjects (totalPages allGameObjects))
           \<and> length (pageGameObjects allGameObjects (totalPages allGameObjects)) \<le> 8)"
proof (intro impI conjI allI)
  assume p: "1 \<le> page"
  show "pageGameObjects allGameObjects page = take 8 (drop (8 * (nat page - 1)) allGameObjects)"
    using p by (rule pageGameObjects_take_drop)
  show "length (pageGameObjects allGameObjects page) = min 8 (length allGameObjects - 8 * (nat page - 1))"
    by (simp add: pageGameObjects_take_drop [OF p] min.commute)
  show "pageGameObjects allGameObjects 1 = take 8 allGameObjects"
    by (simp add: pageGameObjects_take_drop)
next
  fix k
  assume p: "1 \<le> page" and k: "k < length (pageGameObjects allGameObjects page)"
  then have "k < min 8 (length allGameObjects - 8 * (nat page - 1))"
    by (simp add: pageGameObjects_take_drop [OF p] min.commute)
  then have "k < 8" "8 * (nat page - 1) \<le> length allGameObjects"
    by linarith+
  then show "pageGameObjects allGameObjects page ! k = allGameObjects ! (8 * (nat page - 1) + k)"
    by (simp add: pageGameObjects_take_drop [OF p])
next
  assume g: "allGameObjects \<noteq> []"
  then have l: "0 < length allGameObjects" by simp
  let ?T = "(length allGameObjects + 7) div 8"
  have T: "totalPages allGameObjects = int ?T" by (rule totalPages_div)
  have T1: "1 \<le> ?T" using l by presburger
  show "1 \<le> totalPages allGameObjects" using T T1 by simp
  have lo: "8 * (?T - 1) < length allGameObjects" using l by presburger
  have hi: "length allGameObjects \<le> 8 * ?T" by presburger
  have e: "pageGameObjects allGameObjects (totalPages allGameObjects) = take 8 (drop (8 * (?T - 1)) allGameObjects)"
    using T T1 by (simp add: pageGameObjects_take_drop)
  have len: "length allGameObjects - 8 * (?T - 1) \<le> 8" using hi T1 by (simp add: algebra_simps) 
  show "pageGameObjects allGameObjects (totalPages allGameObjects) = drop (8 * (nat (totalPages allGameObjects) - 1)) allGameObjects"
    using e len T by simp
  show "1 \<le> length (pageGameObjects allGameObjects (totalPages allGameObjects))"
    using e lo by simp
  show "length (pageGameObjects allGameObjects (totalPages allGameObjects)) \<le> 8"
    using e by simp
qed


theorem pageGameObjects_slice_witness:
  "(1::int) \<le> 2 \<and> [1 ..< 12 :: nat] \<noteq> []
   \<and> pageGameObjects [1 ..< 12 :: nat] 2 = [9, 10, 11]
   \<and> pageGameObjects [1 ..< 12 :: nat] 1 = [1, 2, 3, 4, 5, 6, 7, 8]
   \<and> totalPages [1 ..< 12 :: nat] = 2"
proof -
  have u: "[1 ..< 12 :: nat] = [1, 2, 3, 4, 5, 6, 7, 8, 9, 10, 11]" by code_simp
  have t: "totalPages [1 ..< 12 :: nat] = 2" by (simp add: totalPages_div)
  from pageGameObjects_slice [of 2 "[1 ..< 12 :: nat]"]
  show ?thesis unfolding t unfolding u by simp
qed

section \<open>The search history stays bounded and free of duplicates\<close>

lemma addToHistory_nonempty:
  "q \<noteq> [] \<Longrightarrow> addToHistory q now h
     = take maxHistoryItems (\<lparr>query = q, timestamp = now\<rparr> # filter (\<lambda>item. query item \<noteq> q) h)"
  by (simp add: addToHistory_def js_slice_from_0)

lemma addToHistory_invariant:
  assumes "historyInvariant h"
  shows "historyInvariant (addToHistory q now h)"
proof (cases "q = []")
  case True
  then show ?thesis using assms by (simp add: addToHistory_def)
next
  case False
  let ?xs = "\<lparr>query = q, timestamp = now\<rparr> # filter (\<lambda>item. query item \<noteq> q) h"
  have d: "distinct (map query (filter (\<lambda>item. query item \<noteq> q) h))"
    using assms by (simp add: historyInvariant_def distinct_map_filter)
  have "distinct (map query ?xs)"
    using d by auto
  then have "distinct (take maxHistoryItems (map query ?xs))"
    by (rule distinct_take)
  then have "distinct (map query (take maxHistoryItems ?xs))"
    by (simp only: take_map)
  moreover have "length (take maxHistoryItems ?xs) \<le> maxHistoryItems"
    by simp
  ultimately show ?thesis
    unfolding historyInvariant_def addToHistory_nonempty [OF False] by simp
qed

lemma addToHistory_front:
  "q \<noteq> [] \<Longrightarrow> addToHistory q now h \<noteq> [] \<and> query (hd (addToHistory q now h)) = q"
  by (simp add: addToHistory_nonempty maxHistoryItems_def)

lemma addToHistoryCalls_append:
  "addToHistoryCalls (calls @ [(q, now)]) h = addToHistory q now (addToHistoryCalls calls h)"
  by (induction calls h rule: addToHistoryCalls.induct) simp_all

lemma addToHistoryCalls_invariant:
  "historyInvariant h \<Longrightarrow> historyInvariant (addToHistoryCalls calls h)"
  by (induction calls h rule: addToHistoryCalls.induct) (simp_all add: addToHistory_invariant)

lemma addToHistoryCalls_front:
  "filter (\<lambda>c. fst c \<noteq> []) calls \<noteq> [] \<Longrightarrow>
   addToHistoryCalls calls h \<noteq> [] \<and>
   query (hd (addToHistoryCalls calls h)) = fst (last (filter (\<lambda>c. fst c \<noteq> []) calls))"
proof (induction calls rule: rev_induct)
  case Nil
  then show ?case by simp
next
  case (snoc c calls)
  obtain q now where c: "c = (q, now)" by (cases c)
  show ?case
  proof (cases "q = []")
    case True
    then show ?thesis using snoc c by (simp add: addToHistoryCalls_append addToHistory_def)
  next
    case False
    then show ?thesis using c addToHistory_front [OF False]
      by (simp add: addToHistoryCalls_append)
  qed
qed

text \<open>
  C10. After any sequence of \<open>addToHistory\<close> calls, from the empty history of the
  constructor or any history with at most 50 entries and no repeated query, the history
  has at most 50 entries, no two entries share a query, and the query added last (a call
  with the empty query adds nothing) is at the front.
\<close>

theorem addToHistory_bounded_distinct_front:
  "historyInvariant h \<Longrightarrow>
   length (addToHistoryCalls calls h) \<le> 50
   \<and> distinct (map query (addToHistoryCalls calls h))
   \<and> (filter (\<lambda>c. fst c \<noteq> []) calls \<noteq> [] \<longrightarrow>
        addToHistoryCalls calls h \<noteq> [] \<and>
        query (hd (addToHistoryCalls calls h)) = fst (last (filter (\<lambda>c. fst c \<noteq> []) calls)))"
  using addToHistoryCalls_invariant [of h calls] addToHistoryCalls_front [of calls h]
  by (simp add: historyInvariant_def maxHistoryItems_def)

theorem addToHistory_bounded_distinct_front_witness:
  "historyInvariant []
   \<and> filter (\<lambda>c. fst c \<noteq> []) [(''ys'', 1::int), (''rez'', 2), ('''', 3), (''ys'', 4), ('''', 5)] \<noteq> []
   \<and> length (addToHistoryCalls [(''ys'', 1::int), (''rez'', 2), ('''', 3), (''ys'', 4), ('''', 5)] []) \<le> 50
   \<and> map query (addToHistoryCalls [(''ys'', 1::int), (''rez'', 2), ('''', 3), (''ys'', 4), ('''', 5)] [])
       = [''ys'', ''rez'']"
proof -
  have i: "historyInvariant []" by (simp add: historyInvariant_def)
  have e: "map query (addToHistoryCalls [(''ys'', 1::int), (''rez'', 2), ('''', 3), (''ys'', 4), ('''', 5)] [])
       = [''ys'', ''rez'']"
    by code_simp
  from addToHistory_bounded_distinct_front
    [OF i, of "[(''ys'', 1::int), (''rez'', 2), ('''', 3), (''ys'', 4), ('''', 5)]"] i e
  show ?thesis by simp
qed

section \<open>Claims about the resolution pipeline\<close>

lemma findBestMatch_Nil: "findBestMatch lc t [] = None"
  by (simp add: findBestMatch_def)

lemma findBestMatch_rez:
  "findBestMatch toLowerCaseAscii ''Rez'' [exampleGame ''Rez HD'', exampleGame ''REZ'']
   = Some (exampleGame ''REZ'')"
  by (simp add: findBestMatch_def name_exampleGame toLowerCaseAscii_examples)

text \<open>
  C3. For every curated entry resolved while the active tab is unchanged,
  \<open>fetchCuratedGameData\<close> follows the state machine, with no retry of either stage: a
  successful slug lookup ends as found with that record, after that one request; a failed
  slug lookup is followed by exactly one title search; when the search succeeds, the match
  selector's choice decides between found (with the selected record) and not found (no
  record); when the search request fails, the result is not found.
\<close>

theorem fetchCuratedGameData_state_machine:
  assumes "tabAfterSlugLookup = currentGenre" and "tabAfterSearch = currentGenre"
    and "fetchCuratedGameData api lc tabAfterSlugLookup tabAfterSearch e currentGenre pid s = (r, s')"
  shows
    "(\<forall>d. getGameDetails api (slug e) = Some d \<longrightarrow>
        r = Found d \<and> requests s' = requests s @ [GetGameDetails (slug e)])
     \<and> (getGameDetails api (slug e) = None \<longrightarrow>
        requests s' = requests s @ [GetGameDetails (slug e), SearchGames (title e) 5 ''17'']
        \<and> (\<forall>games. searchGames api (title e) 5 ''17'' = Some games \<longrightarrow>
              (\<forall>m. findBestMatch lc (title e) games = Some m \<longrightarrow> r = Found m)
              \<and> (findBestMatch lc (title e) games = None \<longrightarrow> r = NotFound \<and> data r = None))
        \<and> (searchGames api (title e) 5 ''17'' = None \<longrightarrow> r = NotFound \<and> data r = None))"
  using assms
  by (auto simp: fetchCuratedGameData_def Let_def split: option.splits)

theorem fetchCuratedGameData_state_machine_witness:
  "fst (fetchCuratedGameData (searchOnlyAPI [exampleGame ''Rez HD'', exampleGame ''REZ''])
          toLowerCaseAscii ''Puzzle'' ''Puzzle'' \<lparr>title = ''Rez'', slug = ''rez''\<rparr> ''Puzzle'' 0
          \<lparr>document = [SkeletonPlaceholder 0], requests = []\<rparr>)
     = Found (exampleGame ''REZ'')
   \<and> requests (snd (fetchCuratedGameData (searchOnlyAPI [exampleGame ''Rez HD'', exampleGame ''REZ''])
          toLowerCaseAscii ''Puzzle'' ''Puzzle'' \<lparr>title = ''Rez'', slug = ''rez''\<rparr> ''Puzzle'' 0
          \<lparr>document = [SkeletonPlaceholder 0], requests = []\<rparr>))
     = [GetGameDetails ''rez'', SearchGames ''Rez'' 5 ''17'']
   \<and> fst (fetchCuratedGameData (searchOnlyAPI [])
          toLowerCaseAscii ''Puzzle'' ''Puzzle'' \<lparr>title = ''Rez'', slug = ''rez''\<rparr> ''Puzzle'' 0
          \<lparr>document = [SkeletonPlaceholder 0], requests = []\<rparr>)
     = NotFound"
proof -
  let ?e = "\<lparr>title = ''Rez'', slug = ''rez''\<rparr>"
  let ?s = "\<lparr>document = [SkeletonPlaceholder 0], requests = []\<rparr>"
  let ?gs = "[exampleGame ''Rez HD'', exampleGame ''REZ'']"
  let ?run = "\<lambda>gs. fetchCuratedGameData (searchOnlyAPI gs) toLowerCaseAscii ''Puzzle'' ''Puzzle''
                  ?e ''Puzzle'' 0 ?s"
  have a: "getGameDetails (searchOnlyAPI gs) (slug ?e) = None"
    "searchGames (searchOnlyAPI gs) (title ?e) 5 ''17'' = Some gs" for gs
    by (simp_all add: searchOnlyAPI_def)
  have m: "findBestMatch toLowerCaseAscii (title ?e) ?gs = Some (exampleGame ''REZ'')"
    using findBestMatch_rez by simp
  have n: "findBestMatch toLowerCaseAscii (title ?e) [] = (None :: game option)"
    by (rule findBestMatch_Nil)
  have 1: "fst (?run ?gs) = Found (exampleGame ''REZ'')
        \<and> requests (snd (?run ?gs)) = [GetGameDetails ''rez'', SearchGames ''Rez'' 5 ''17'']"
    using fetchCuratedGameData_state_machine
      [OF refl refl prod.collapse [symmetric], where api = "searchOnlyAPI ?gs"
        and lc = toLowerCaseAscii and e = ?e and currentGenre = "''Puzzle''" and pid = 0 and s = ?s]
      a [of ?gs] m by simp
  have 2: "fst (?run []) = NotFound"
    using fetchCuratedGameData_state_machine
      [OF refl refl prod.collapse [symmetric], where api = "searchOnlyAPI []"
        and lc = toLowerCaseAscii and e = ?e and currentGenre = "''Puzzle''" and pid = 0 and s = ?s]
      a [of "[]"] n by simp
  show ?thesis using 1 2 by simp
qed

text \<open>
  C6. The claim: resolving the same curated entry twice against identical responses of
  the metadata client yields the same status both times. As stated it fails: with the same
  entry and the same client, a run during which the tab stays on the dispatching genre ends
  as found, and a run during which the user switches the tab ends as aborted.
\<close>

theorem fetchCuratedGameData_tab_counterexample:
  "fst (fetchCuratedGameData rezAPI toLowerCaseAscii ''Puzzle'' ''Puzzle''
          \<lparr>title = ''Lumines'', slug = ''lumines''\<rparr> ''Puzzle'' 0
          \<lparr>document = [SkeletonPlaceholder 0], requests = []\<rparr>)
     = Found (exampleGame ''Lumines'')
   \<and> fst (fetchCuratedGameData rezAPI toLowerCaseAscii ''Action'' ''Action''
          \<lparr>title = ''Lumines'', slug = ''lumines''\<rparr> ''Puzzle'' 0
          \<lparr>document = [SkeletonPlaceholder 0], requests = []\<rparr>)
     = Aborted"
  by (simp add: fetchCuratedGameData_def rezAPI_def)

text \<open>
  C6, amended. Resolving the same curated entry twice against the same responses of the
  metadata client to the entry's slug lookup and title search yields the same result,
  hence the same status and the same \<open>data.slug\<close>, provided each of the two active-tab
  checks comes out the same way in both runs (in particular when the tab stays on the
  dispatching genre in both). The result depends on nothing else: not on the placeholder,
  the document, the requests made before, the name of the genre or the rest of the client.
\<close>

theorem fetchCuratedGameData_deterministic:
  assumes "getGameDetails api1 (slug e) = getGameDetails api2 (slug e)"
    and "searchGames api1 (title e) 5 ''17'' = searchGames api2 (title e) 5 ''17''"
    and "(tab1 = genre) = (tab1' = genre')" and "(tab2 = genre) = (tab2' = genre')"
  shows "fst (fetchCuratedGameData api1 lc tab1 tab2 e genre pid s)
         = fst (fetchCuratedGameData api2 lc tab1' tab2' e genre' pid' s')
       \<and> status (fst (fetchCuratedGameData api1 lc tab1 tab2 e genre pid s))
         = status (fst (fetchCuratedGameData api2 lc tab1' tab2' e genre' pid' s'))
       \<and> map_option game_slug (data (fst (fetchCuratedGameData api1 lc tab1 tab2 e genre pid s)))
         = map_option game_slug (data (fst (fetchCuratedGameData api2 lc tab1' tab2' e genre' pid' s')))"
proof -
  have "fst (fetchCuratedGameData api1 lc tab1 tab2 e genre pid s)
         = fst (fetchCuratedGameData api2 lc tab1' tab2' e genre' pid' s')"
    using assms by (auto simp: fetchCuratedGameData_def Let_def split: option.splits)
  then show ?thesis by simp
qed

theorem fetchCuratedGameData_deterministic_witness:
  "getGameDetails (searchOnlyAPI [exampleGame ''Rez HD'', exampleGame ''REZ'']) ''rez''
     = getGameDetails rezAPI ''rez''
   \<and> searchGames (searchOnlyAPI [exampleGame ''Rez HD'', exampleGame ''REZ'']) ''Rez'' 5 ''17''
     = searchGames rezAPI ''Rez'' 5 ''17''
   \<and> fst (fetchCuratedGameData (searchOnlyAPI [exampleGame ''Rez HD'', exampleGame ''REZ''])
          toLowerCaseAscii ''Puzzle'' ''Puzzle'' \<lparr>title = ''Rez'', slug = ''rez''\<rparr> ''Puzzle'' 0
          \<lparr>document = [SkeletonPlaceholder 0], requests = []\<rparr>)
     = fst (fetchCuratedGameData rezAPI
          toLowerCaseAscii ''Music'' ''Music'' \<lparr>title = ''Rez'', slug = ''rez''\<rparr> ''Music'' 3
          \<lparr>document = [], requests = [GetGameDetails ''lumines'']\<rparr>)"
proof -
  have a: "getGameDetails (searchOnlyAPI [exampleGame ''Rez HD'', exampleGame ''REZ''])
             (slug \<lparr>title = ''Rez'', slug = ''rez''\<rparr>)
           = getGameDetails rezAPI (slug \<lparr>title = ''Rez'', slug = ''rez''\<rparr>)"
    by (simp add: rezAPI_def searchOnlyAPI_def)
  have b: "searchGames (searchOnlyAPI [exampleGame ''Rez HD'', exampleGame ''REZ''])
             (title \<lparr>title = ''Rez'', slug = ''rez''\<rparr>) 5 ''17''
           = searchGames rezAPI (title \<lparr>title = ''Rez'', slug = ''rez''\<rparr>) 5 ''17''"
    by (simp add: rezAPI_def searchOnlyAPI_def)
  have c: "(''Puzzle'' = ''Puzzle'') = (''Music'' = ''Music'')" by simp
  from fetchCuratedGameData_deterministic [OF a b c c, where lc = toLowerCaseAscii and pid = 0
      and s = "\<lparr>document = [SkeletonPlaceholder 0], requests = []\<rparr>" and pid' = 3
      and s' = "\<lparr>document = [], requests = [GetGameDetails ''lumines'']\<rparr>"] a b
  show ?thesis by simp
qed

text \<open>
  The checks the pipeline does make: after a slug lookup that succeeded while the tab was
  switched away the result is aborted and the document is untouched, and the adapter
  renders nothing for a genre that is no longer active. After a slug lookup that failed,
  Stage 2 patches the placeholder whatever the active tab is.
\<close>

lemma fetchCuratedGameData_searching_unchecked:
  "getGameDetails api (slug e) = None \<Longrightarrow>
   document (snd (fetchCuratedGameData api lc tab1 tab2 e genre pid s))
     = replacePlaceholder pid (SearchingPlaceholder pid (title e)) (document s)"
  by (auto simp: fetchCuratedGameData_def Let_def split: option.splits)

lemma fetchCuratedGameData_aborted_after_success:
  "getGameDetails api (slug e) = Some d \<Longrightarrow> tab1 \<noteq> genre \<Longrightarrow>
   fst (fetchCuratedGameData api lc tab1 tab2 e genre pid s) = Aborted
   \<and> document (snd (fetchCuratedGameData api lc tab1 tab2 e genre pid s)) = document s"
  by (simp add: fetchCuratedGameData_def Let_def)

lemma renderCuratedResult_stale:
  "activeTab \<noteq> genre \<Longrightarrow> renderCuratedResult activeTab genre e pid r grid = grid"
  by (simp add: renderCuratedResult_def)

text \<open>
  C2. The claim: if the active tab is no longer the genre of the dispatch, the result is
  aborted and nothing of the UI is changed for the entry, the token being re-read after
  each network step. The code re-reads the token only after a network step that succeeded.
  Here the slug lookup of an entry dispatched under \<open>Puzzle\<close> fails after the user has
  switched to \<open>Action\<close>, whose grid shows its own placeholders 0 and 1, and the search fails
  too: placeholder 0 is turned into the "Finding ..." card of the stale entry, and the
  result is not found instead of aborted.
\<close>

theorem fetchCuratedGameData_stale_failure_path:
  "fetchCuratedGameData offlineAPI toLowerCaseAscii ''Action'' ''Action''
     \<lparr>title = ''Rez'', slug = ''rez''\<rparr> ''Puzzle'' 0
     \<lparr>document = [SkeletonPlaceholder 0, SkeletonPlaceholder 1], requests = []\<rparr>
   = (NotFound,
      \<lparr>document = [SearchingPlaceholder 0 ''Rez'', SkeletonPlaceholder 1],
       requests = [GetGameDetails ''rez'', SearchGames ''Rez'' 5 ''17'']\<rparr>)"
  by (simp add: fetchCuratedGameData_def offlineAPI_def)

section \<open>The page of a genre stays in range\<close>

lemma totalPages_pos: "xs \<noteq> [] \<Longrightarrow> 1 \<le> totalPages xs"
  by (cases xs) (simp_all add: totalPages_div)

lemma pagesOf_pos:
  assumes "populated cat" "genre \<in> set (curatedGenres cat)"
  shows "1 \<le> pagesOf cat genre"
proof -
  from assms(2) obtain c where c: "map_of cat genre = Some c"
    by (cases "map_of cat genre") (auto simp: curatedGenres_def map_of_eq_None_iff)
  then have "(genre, c) \<in> set cat" by (rule map_of_SomeD)
  then have "games c \<noteq> []" using assms(1) by (auto simp: populated_def)
  then show ?thesis using c by (simp add: pagesOf_def totalPages_pos)
qed

lemma display_invariant:
  assumes "paginationInvariant cat ui" "validPage cat (genre, page)"
  shows "paginationInvariant cat (displayCuratedGamesForGenre html cat genre page ui)"
  using assms
  by (auto simp: paginationInvariant_def displayCuratedGamesForGenre_def Let_def pagesOf_def
      split: option.splits if_splits)

lemma activeTab_invariant:
  "paginationInvariant cat ui \<Longrightarrow> paginationInvariant cat (ui\<lparr>activeCuratedTab := g\<rparr>)"
  by (simp add: paginationInvariant_def)

lemma render_invariant:
  assumes "paginationInvariant cat ui" "validPage cat (genre, page)" "pages = pagesOf cat genre"
  shows "paginationInvariant cat (renderCuratedPagination html genre page pages ui)"
  using assms
  by (auto simp: paginationInvariant_def renderCuratedPagination_def validPage_def)

lemma pending_remove_invariant:
  assumes "paginationInvariant cat ui"
  shows "paginationInvariant cat (ui\<lparr>pendingRenders := take k (pendingRenders ui) @ drop (Suc k) (pendingRenders ui)\<rparr>)"
proof -
  have "set (take k (pendingRenders ui) @ drop (Suc k) (pendingRenders ui)) \<subseteq> set (pendingRenders ui)"
    using set_take_subset set_drop_subset by fastforce
  then show ?thesis using assms unfolding paginationInvariant_def by auto
qed

lemma step_invariant:
  assumes "populated cat" "paginationInvariant cat ui" "step html cat ev ui = Some ui'"
  shows "paginationInvariant cat ui'"
proof (cases ev)
  case (SelectTab g)
  with assms(3) have g: "g \<in> set (curatedGenres cat)"
    and ui': "ui' = displayCuratedGamesForGenre html cat g 1 (ui\<lparr>activeCuratedTab := g\<rparr>)"
    by (auto split: if_splits)
  have "validPage cat (g, 1)" using pagesOf_pos [OF assms(1) g] by (simp add: validPage_def)
  then show ?thesis unfolding ui'
    by (intro display_invariant activeTab_invariant assms(2))
next
  case ClickPrevious
  with assms(3) obtain g p where h: "previousHandler ui = Some (g, p)"
    and ui': "ui' = displayCuratedGamesForGenre html cat g p ui"
    by (auto split: option.splits)
  have "validPage cat (g, p)" using assms(2) h by (simp add: paginationInvariant_def)
  then show ?thesis unfolding ui' by (intro display_invariant assms(2))
next
  case ClickNext
  with assms(3) obtain g p where h: "nextHandler ui = Some (g, p)"
    and ui': "ui' = displayCuratedGamesForGenre html cat g p ui"
    by (auto split: option.splits)
  have "validPage cat (g, p)" using assms(2) h by (simp add: paginationInvariant_def)
  then show ?thesis unfolding ui' by (intro display_invariant assms(2))
next
  case (RenderDone k)
  with assms(3) obtain g p t where k: "k < length (pendingRenders ui)"
    and e: "pendingRenders ui ! k = (g, p, t)"
    and ui': "ui' = renderCuratedPagination html g p t
                (ui\<lparr>pendingRenders := take k (pendingRenders ui) @ drop (Suc k) (pendingRenders ui)\<rparr>)"
    by (auto split: if_splits prod.splits)
  have "(g, p, t) \<in> set (pendingRenders ui)" using k e by (metis nth_mem)
  then have "t = pagesOf cat g" "validPage cat (g, p)"
    using assms(2) by (auto simp: paginationInvariant_def)
  then show ?thesis unfolding ui'
    by (intro render_invariant pending_remove_invariant assms(2))
qed

lemma setup_invariant:
  assumes "populated cat"
  shows "paginationInvariant cat (setupCuratedSection html cat)"
proof -
  have "cat \<noteq> []" using assms by (simp add: populated_def)
  then have "hd (curatedGenres cat) \<in> set (curatedGenres cat)"
    by (cases cat) (simp_all add: curatedGenres_def)
  then have "validPage cat (hd (curatedGenres cat), 1)"
    using pagesOf_pos [OF assms] by (simp add: validPage_def)
  then show ?thesis
    unfolding setupCuratedSection_def
    by (intro display_invariant) (simp_all add: paginationInvariant_def)
qed

lemma run_invariant:
  "populated cat \<Longrightarrow> paginationInvariant cat ui \<Longrightarrow> run html cat evs ui = Some ui' \<Longrightarrow>
   paginationInvariant cat ui'"
proof (induction evs arbitrary: ui)
  case Nil
  then show ?case by simp
next
  case (Cons ev evs)
  then show ?case by (auto split: option.splits dest: step_invariant)
qed

lemma selectTab_pages:
  assumes "step html cat (SelectTab g) ui = Some ui'"
  shows "currentPageByGenre ui' g = Some 1
         \<and> (\<forall>g'. g' \<noteq> g \<longrightarrow> currentPageByGenre ui' g' = currentPageByGenre ui g')"
  using assms
  by (auto simp: displayCuratedGamesForGenre_def Let_def split: if_splits option.splits)

lemma populated_exampleCatalog: "populated exampleCatalog"
  by (simp add: populated_def exampleCatalog_def)

lemma totalPages_examples:
  "totalPages (replicate 9 x) = 2" "totalPages [y] = 1"
  by (simp_all add: totalPages_div)

lemma pageAfter_next:
  "pageAfter examplePage exampleCatalog [RenderDone 0, ClickNext] ''RPG'' = Some 2"
  by (simp add: pageAfter_def setupCuratedSection_def curatedGenres_def exampleCatalog_def
      examplePage_def displayCuratedGamesForGenre_def renderCuratedPagination_def
      totalPages_examples Let_def)

lemma pageAfter_back:
  "pageAfter examplePage exampleCatalog
     [RenderDone 0, ClickNext, SelectTab ''Puzzle'', SelectTab ''RPG''] ''RPG'' = Some 1"
  by (simp add: pageAfter_def setupCuratedSection_def curatedGenres_def exampleCatalog_def
      examplePage_def displayCuratedGamesForGenre_def renderCuratedPagination_def
      totalPages_examples Let_def)

text \<open>
  C8. The claim: in every state reachable by tab selections and Previous/Next clicks the
  stored page of a genre is between 1 and the number of pages of the genre, and it is kept
  per genre across tab switches rather than reset. The second part fails: after Next on
  \<open>RPG\<close> its stored page is 2, and after selecting \<open>Puzzle\<close> and then \<open>RPG\<close> again it is 1.
\<close>

theorem currentPageByGenre_reset_counterexample:
  "pageAfter examplePage exampleCatalog [RenderDone 0, ClickNext] ''RPG'' = Some 2
   \<and> pageAfter examplePage exampleCatalog
        [RenderDone 0, ClickNext, SelectTab ''Puzzle'', SelectTab ''RPG''] ''RPG'' = Some 1"
  using pageAfter_next pageAfter_back by simp

text \<open>
  C8, amended. For a catalog with a genre in which every genre lists at least one game, in
  every state reachable from the set-up of the section by tab selections, Previous/Next
  clicks and completions of a display, the stored page \<open>p\<close> of a genre with \<open>n\<close> curated
  games satisfies \<open>1 \<le> p \<le> ceil (n / 8)\<close>; and selecting a tab sets the stored page of that
  genre to 1 and leaves the stored page of every other genre as it is.
\<close>

theorem currentPageByGenre_in_range:
  assumes "populated curatedGames"
    and "run html curatedGames evs (setupCuratedSection html curatedGames) = Some ui"
  shows "(\<forall>genre page. currentPageByGenre ui genre = Some page \<longrightarrow>
            (\<exists>categoryData. map_of curatedGames genre = Some categoryData
               \<and> 1 \<le> page \<and> page \<le> \<lceil>real (length (games categoryData)) / 8\<rceil>))
         \<and> (\<forall>tab ui'. step html curatedGames (SelectTab tab) ui = Some ui' \<longrightarrow>
               currentPageByGenre ui' tab = Some 1
               \<and> (\<forall>genre. genre \<noteq> tab \<longrightarrow> currentPageByGenre ui' genre = currentPageByGenre ui genre))"
proof (intro conjI allI impI)
  fix genre page
  assume p: "currentPageByGenre ui genre = Some page"
  have "paginationInvariant curatedGames ui"
    using run_invariant [OF assms(1) setup_invariant [OF assms(1)] assms(2)] .
  then have v: "1 \<le> page" "page \<le> pagesOf curatedGames genre"
    using p by (auto simp: paginationInvariant_def validPage_def)
  then obtain c where c: "map_of curatedGames genre = Some c"
    by (cases "map_of curatedGames genre") (auto simp: pagesOf_def)
  then show "\<exists>categoryData. map_of curatedGames genre = Some categoryData
               \<and> 1 \<le> page \<and> page \<le> \<lceil>real (length (games categoryData)) / 8\<rceil>"
    using v by (simp add: pagesOf_def totalPages_def gamesPerPage_def)
next
  fix tab ui'
  assume "step html curatedGames (SelectTab tab) ui = Some ui'"
  from selectTab_pages [OF this]
  show "currentPageByGenre ui' tab = Some 1"
    and "\<And>genre. genre \<noteq> tab \<Longrightarrow> currentPageByGenre ui' genre = currentPageByGenre ui genre"
    by simp_all
qed

theorem currentPageByGenre_in_range_witness:
  "populated exampleCatalog
   \<and> (\<exists>ui. run examplePage exampleCatalog [RenderDone 0, ClickNext]
              (setupCuratedSection examplePage exampleCatalog) = Some ui
           \<and> currentPageByGenre ui ''RPG'' = Some 2
           \<and> (\<exists>categoryData. map_of exampleCatalog ''RPG'' = Some categoryData
               \<and> (1::int) \<le> 2 \<and> 2 \<le> \<lceil>real (length (games categoryData)) / 8\<rceil>))"
proof -
  obtain ui where r: "run examplePage exampleCatalog [RenderDone 0, ClickNext]
              (setupCuratedSection examplePage exampleCatalog) = Some ui"
    and p: "currentPageByGenre ui ''RPG'' = Some 2"
    using pageAfter_next by (auto simp: pageAfter_def split: option.splits)
  from currentPageByGenre_in_range [OF populated_exampleCatalog r] p
  have "\<exists>categoryData. map_of exampleCatalog ''RPG'' = Some categoryData
               \<and> (1::int) \<le> 2 \<and> 2 \<le> \<lceil>real (length (games categoryData)) / 8\<rceil>"
    by blast
  then show ?thesis using populated_exampleCatalog r p by blast
qed

end
